theory Spec2Isabelle
  imports Main "HOL-Library.Word"
begin

unbundle bit_operations_syntax

section \<open>Consensus constants and helpers (protocol/consensus)\<close>

text \<open>
  Amounts are JavaScript numbers holding integers of at most 53 bits; they are modelled
  as \<open>int\<close>. Every \<open>assert\<close> and \<open>throw\<close> of the source is a value of the
  type \<open>error\<close> on the left of a sum: a failed \<open>assert\<close>, a parse error of a
  decoder, the \<open>Error\<close> of serializing a transaction without inputs, and the
  \<open>TypeError\<close> of reading a field of \<open>undefined\<close>.
\<close>

datatype error = AssertionError | ParseError | SerializeError | TypeError

definition COIN :: int where
  "COIN = 100000000"

definition MAX_MONEY :: int where
  "MAX_MONEY = 21000000 * COIN"

definition BASE_REWARD :: int where
  "BASE_REWARD = 50 * COIN"

definition HALF_REWARD :: int where
  "HALF_REWARD = BASE_REWARD div 2"

definition MAX_FORK_BLOCK_SIZE :: int where
  "MAX_FORK_BLOCK_SIZE = 32000000"

definition MAX_TX_SIZE :: int where
  "MAX_TX_SIZE = 1000000"

definition MAX_BLOCK_SIGOPS_PER_MB :: int where
  "MAX_BLOCK_SIGOPS_PER_MB = 20000"

definition MAX_COINBASE_SCRIPTSIG_SIZE :: int where
  "MAX_COINBASE_SCRIPTSIG_SIZE = 100"

definition COINBASE_MATURITY :: int where
  "COINBASE_MATURITY = 100"

text \<open>
  \<open>getReward(height, interval)\<close>. \<open>Math.floor(height / interval)\<close> is the floor
  division of \<open>int\<close> for a non-zero interval. For \<open>interval = 0\<close> the quotient is
  \<open>Infinity\<close> (positive height: the test \<open>halvings >= 33\<close> holds) or \<open>NaN\<close>
  (height 0: both tests fail and the shift count \<open>NaN - 1\<close> is 0). The shift
  \<open>HALF_REWARD >>> n\<close> takes its count modulo 32; \<open>HALF_REWARD\<close> is below
  \<open>2 ^ 32\<close>, so its conversion to an unsigned 32-bit value is the identity.
\<close>

definition getReward :: "int \<Rightarrow> int \<Rightarrow> error + int" where
  "getReward height interval =
     (if \<not> height \<ge> 0 then Inl AssertionError
      else if interval = 0 then
        (if height > 0 then Inr 0 else Inr (drop_bit 0 HALF_REWARD))
      else
        (let halvings = height div interval in
         if halvings \<ge> 33 then Inr 0
         else if halvings = 0 then Inr BASE_REWARD
         else Inr (drop_bit (nat ((halvings - 1) mod 32)) HALF_REWARD)))"

text \<open>The subsidy paid at a block height (a height is never negative).\<close>

definition subsidy :: "int \<Rightarrow> nat \<Rightarrow> int" where
  "subsidy interval h = (case getReward (int h) interval of Inr v \<Rightarrow> v | Inl e \<Rightarrow> 0)"

text \<open>
  The total paid over the first \<open>n\<close> heights, and the subsidy of a halving era
  (the era of height \<open>h\<close> is \<open>h div interval\<close>).
\<close>

definition totalReward :: "int \<Rightarrow> nat \<Rightarrow> int" where
  "totalReward interval n = (\<Sum>h<n. subsidy interval h)"

definition eraReward :: "nat \<Rightarrow> int" where
  "eraReward k = (if k = 0 then BASE_REWARD else drop_bit (k - 1) HALF_REWARD)"


section \<open>JavaScript 32-bit operators\<close>

text \<open>
  The bitwise operators of JavaScript convert their operands to 32-bit integers
  (\<open>ToInt32\<close>, for \<open>>>>\<close> \<open>ToUint32\<close>), take the shift count modulo 32 and
  return a 32-bit result. On \<open>int\<close> the bit operations are those of two's
  complement, so each operator is the operation of \<open>int\<close> with the conversions
  written out.
\<close>

definition toInt32 :: "int \<Rightarrow> int" where
  "toInt32 x = signed_take_bit 31 x"

definition toUint32 :: "int \<Rightarrow> int" where
  "toUint32 x = take_bit 32 x"

definition js_and :: "int \<Rightarrow> int \<Rightarrow> int" where
  "js_and a b = toInt32 a AND toInt32 b"

definition js_or :: "int \<Rightarrow> int \<Rightarrow> int" where
  "js_or a b = toInt32 a OR toInt32 b"

definition js_shl :: "int \<Rightarrow> int \<Rightarrow> int" where
  "js_shl a k = toInt32 (push_bit (nat (k mod 32)) (toInt32 a))"

definition js_sar :: "int \<Rightarrow> int \<Rightarrow> int" where
  "js_sar a k = drop_bit (nat (k mod 32)) (toInt32 a)"

definition js_shr :: "int \<Rightarrow> int \<Rightarrow> int" where
  "js_shr a k = drop_bit (nat (k mod 32)) (toUint32 a)"

section \<open>Compact target codec\<close>

text \<open>
  \<open>BN.byteLength\<close> of the big-number library: the number of bytes of the magnitude
  (0 for zero).
\<close>

fun byteLengthNat :: "nat \<Rightarrow> nat" where
  "byteLengthNat n = (if n = 0 then 0 else Suc (byteLengthNat (n div 256)))"

declare byteLengthNat.simps [simp del]

definition byteLength :: "int \<Rightarrow> int" where
  "byteLength num = int (byteLengthNat (nat \<bar>num\<bar>))"

text \<open>
  \<open>fromCompact(compact)\<close>: a big number (\<open>int\<close>) from the compact form of a
  block's \<open>bits\<close>. \<open>iushln\<close> shifts the big number left without a bound.
\<close>

definition fromCompact :: "int \<Rightarrow> int" where
  "fromCompact compact =
     (if compact = 0 then 0
      else
        let exponent = js_shr compact 24;
            negative = js_and (js_shr compact 23) 1;
            mantissa = js_and compact 0x7fffff;
            num = (if exponent \<le> 3 then js_shr mantissa (8 * (3 - exponent))
                   else push_bit (nat (8 * (exponent - 3))) mantissa)
        in if negative \<noteq> 0 then - num else num)"

text \<open>
  \<open>toCompact(num)\<close>. \<open>toNumber\<close> is exact below 53 bits, and both of its uses are
  below 24 bits; \<open>ushrn\<close> shifts the magnitude and keeps the sign.
\<close>

definition toCompact :: "int \<Rightarrow> int" where
  "toCompact num =
     (if num = 0 then 0
      else
        let exponent = byteLength num;
            mantissa = (if exponent \<le> 3 then js_shl num (8 * (3 - exponent))
                        else sgn num * drop_bit (nat (8 * (exponent - 3))) \<bar>num\<bar>);
            carry = (js_and mantissa 0x800000 \<noteq> 0);
            mantissa = (if carry then js_sar mantissa 8 else mantissa);
            exponent = (if carry then exponent + 1 else exponent);
            compact = js_or (js_shl exponent 24) mantissa;
            compact = (if num < 0 then js_or compact 0x800000 else compact)
        in js_shr compact 0)"

text \<open>
  \<open>maxBlockSigops(size)\<close>: \<open>x | 0\<close> truncates the quotient towards zero and converts
  it to a 32-bit integer.
\<close>

definition maxBlockSigops :: "int \<Rightarrow> int" where
  "maxBlockSigops sz =
     (let mb = 1 + toInt32 (sgn (sz - 1) * (\<bar>sz - 1\<bar> div 1000000))
      in mb * MAX_BLOCK_SIGOPS_PER_MB)"

section \<open>Wire format (buffer writer)\<close>

type_synonym byte = "8 word"
type_synonym bytes = "byte list"
type_synonym u32 = "32 word"

text \<open>
  Modelled from the spec: the buffer writer and the classes \<open>Outpoint\<close>, \<open>Input\<close>,
  \<open>Output\<close> and \<open>Script\<close> are not among the sources; section 4.A of the specification
  fixes their framing (little-endian integers, the varint prefixes, outpoint of 36
  bytes, scripts with a varint length). A script is its raw bytes.
\<close>

fun le_bytes :: "nat \<Rightarrow> nat \<Rightarrow> bytes" where
  "le_bytes 0 n = []"
| "le_bytes (Suc k) n = word_of_nat (n mod 256) # le_bytes k (n div 256)"

definition writeU32 :: "u32 \<Rightarrow> bytes" where
  "writeU32 w = le_bytes 4 (unat w)"

definition writeI64 :: "int \<Rightarrow> bytes" where
  "writeI64 v = le_bytes 8 (nat (v mod 2 ^ 64))"

definition writeHash :: "256 word \<Rightarrow> bytes" where
  "writeHash h = le_bytes 32 (unat h)"

definition sizeVarint :: "nat \<Rightarrow> int" where
  "sizeVarint n =
     (if n < 0xfd then 1 else if n \<le> 0xffff then 3 else if n \<le> 0xffffffff then 5 else 9)"

definition writeVarint :: "nat \<Rightarrow> bytes" where
  "writeVarint n =
     (if n < 0xfd then [word_of_nat n]
      else if n \<le> 0xffff then 0xfd # le_bytes 2 n
      else if n \<le> 0xffffffff then 0xfe # le_bytes 4 n
      else 0xff # le_bytes 8 n)"

definition writeVarBytes :: "bytes \<Rightarrow> bytes" where
  "writeVarBytes b = writeVarint (length b) @ b"

definition sizeVarBytes :: "bytes \<Rightarrow> int" where
  "sizeVarBytes b = sizeVarint (length b) + int (length b)"

section \<open>Transactions (primitives/tx)\<close>

record outpoint =
  hash :: "256 word"
  index :: u32

record input =
  prevout :: outpoint
  script :: bytes
  sequence :: u32

record "output" =
  outValue :: int
  outScript :: bytes

text \<open>
  A transaction with its four wire fields, the \<open>mutable\<close> flag and \<open>memo\<close>, which
  says that \<open>_raw\<close> holds the memoised serialization (a transaction read from the
  wire carries its bytes; \<open>frame\<close> stores them otherwise). The memo holds what
  \<open>frameNormal\<close> computes, so only its presence is state.
\<close>

record tx =
  version :: u32
  inputs :: "input list"
  outputs :: "output list"
  locktime :: u32
  mutable :: bool
  memo :: bool

record rawTX =
  rawSize :: int
  rawData :: "bytes option"

definition isNull :: "outpoint \<Rightarrow> bool" where
  "isNull p = (index p = 0xffffffff \<and> hash p = 0)"

definition outpoint_toWriter :: "outpoint \<Rightarrow> bytes" where
  "outpoint_toWriter p = writeHash (hash p) @ writeU32 (index p)"

definition input_toWriter :: "input \<Rightarrow> bytes" where
  "input_toWriter i = outpoint_toWriter (prevout i) @ writeVarBytes (script i) @ writeU32 (sequence i)"

definition input_getSize :: "input \<Rightarrow> int" where
  "input_getSize i = 40 + sizeVarBytes (script i)"

definition output_toWriter :: "output \<Rightarrow> bytes" where
  "output_toWriter out = writeI64 (outValue out) @ writeVarBytes (outScript out)"

definition output_getSize :: "output \<Rightarrow> int" where
  "output_getSize out = 8 + sizeVarBytes (outScript out)"

definition getNormalSizes :: "tx \<Rightarrow> rawTX" where
  "getNormalSizes t =
     (let base = 0;
          base = base + 4;
          base = base + sizeVarint (length (inputs t));
          base = fold (\<lambda>i b. b + input_getSize i) (inputs t) base;
          base = base + sizeVarint (length (outputs t));
          base = fold (\<lambda>out b. b + output_getSize out) (outputs t) base;
          base = base + 4
      in \<lparr>rawSize = base, rawData = None\<rparr>)"

definition txBytes :: "tx \<Rightarrow> bytes" where
  "txBytes t =
     writeU32 (version t)
     @ writeVarint (length (inputs t))
     @ concat (map input_toWriter (inputs t))
     @ writeVarint (length (outputs t))
     @ concat (map output_toWriter (outputs t))
     @ writeU32 (locktime t)"

definition writeNormal :: "tx \<Rightarrow> error + bytes" where
  "writeNormal t =
     (if length (inputs t) = 0 \<and> length (outputs t) \<noteq> 0 then Inl SerializeError
      else Inr (txBytes t))"

definition frameNormal :: "tx \<Rightarrow> error + rawTX" where
  "frameNormal t =
     (let raw = getNormalSizes t in
      case writeNormal t of
        Inl e \<Rightarrow> Inl e
      | Inr bw \<Rightarrow> Inr (raw\<lparr>rawData := Some bw\<rparr>))"

text \<open>\<open>frame\<close> returns the serialization and the transaction with its memo.\<close>

definition frame :: "tx \<Rightarrow> error + (rawTX \<times> tx)" where
  "frame t =
     (if mutable t then
        (if memo t then Inl AssertionError
         else case frameNormal t of Inl e \<Rightarrow> Inl e | Inr raw \<Rightarrow> Inr (raw, t))
      else if memo t then
        (if \<not> rawSize (getNormalSizes t) \<ge> 0 then Inl AssertionError
         else Inr (\<lparr>rawSize = rawSize (getNormalSizes t), rawData = Some (txBytes t)\<rparr>, t))
      else
        (case frameNormal t of
           Inl e \<Rightarrow> Inl e
         | Inr raw \<Rightarrow> Inr (raw, t\<lparr>memo := True\<rparr>)))"

definition getSize :: "tx \<Rightarrow> error + (int \<times> tx)" where
  "getSize t =
     (if mutable t then Inr (rawSize (getNormalSizes t), t)
      else case frame t of Inl e \<Rightarrow> Inl e | Inr (raw, t') \<Rightarrow> Inr (rawSize raw, t'))"

definition isCoinbase :: "tx \<Rightarrow> bool" where
  "isCoinbase t = (length (inputs t) = 1 \<and> isNull (prevout (inputs t ! 0)))"

definition getOutputValue :: "tx \<Rightarrow> int" where
  "getOutputValue t = fold (\<lambda>out tot. tot + outValue out) (outputs t) 0"

section \<open>Contextual input checks\<close>

text \<open>
  Modelled from the spec: the coin view is not among the sources. Section 3 of the
  specification gives \<open>UtxoEntry(output, height, coinbase)\<close> and the view as a map
  from outpoints to entries; \<open>getEntry\<close> is the lookup and \<open>getOutput\<close> the output
  of the entry found.
\<close>

record utxoEntry =
  entry_output :: "output"
  entry_height :: int
  entry_coinbase :: bool

type_synonym coinView = "outpoint \<Rightarrow> utxoEntry option"

definition getEntry :: "coinView \<Rightarrow> outpoint \<Rightarrow> utxoEntry option" where
  "getEntry view p = view p"

definition getOutput :: "coinView \<Rightarrow> outpoint \<Rightarrow> output option" where
  "getOutput view p = map_option entry_output (view p)"

text \<open>
  \<open>getInputValue(view)\<close>: the tot of the coins spent, 0 as soon as one is missing.
\<close>

fun getInputValue_loop :: "coinView \<Rightarrow> int \<Rightarrow> input list \<Rightarrow> int" where
  "getInputValue_loop view tot [] = tot"
| "getInputValue_loop view tot (i # rest) =
     (case getOutput view (prevout i) of
        None \<Rightarrow> 0
      | Some coin \<Rightarrow> getInputValue_loop view (tot + outValue coin) rest)"

definition getInputValue :: "coinView \<Rightarrow> tx \<Rightarrow> int" where
  "getInputValue view t = getInputValue_loop view 0 (inputs t)"

text \<open>
  \<open>checkInputs(view, height)\<close> returns \<open>[fee, reason, score]\<close>, with fee \<open>-1\<close> for a
  failure. The loop over the inputs either returns early (left) or ends with the total.
\<close>

type_synonym feeVerdict = "int \<times> string \<times> int"

fun checkInputs_loop ::
  "coinView \<Rightarrow> int \<Rightarrow> int \<Rightarrow> input list \<Rightarrow> error + (feeVerdict + int)" where
  "checkInputs_loop view height tot [] = Inr (Inr tot)"
| "checkInputs_loop view height tot (i # rest) =
     (case getEntry view (prevout i) of
        None \<Rightarrow> Inr (Inl (- 1, ''bad-txns-inputs-missingorspent'', 0))
      | Some entry \<Rightarrow>
          if entry_coinbase entry \<and> height - entry_height entry < COINBASE_MATURITY
          then Inr (Inl (- 1, ''bad-txns-premature-spend-of-coinbase'', 0))
          else
            (case getOutput view (prevout i) of
               None \<Rightarrow> Inl AssertionError
             | Some coin \<Rightarrow>
                 if outValue coin < 0 \<or> outValue coin > MAX_MONEY
                 then Inr (Inl (- 1, ''bad-txns-inputvalues-outofrange'', 100))
                 else
                   (let tot = tot + outValue coin in
                    if tot < 0 \<or> tot > MAX_MONEY
                    then Inr (Inl (- 1, ''bad-txns-inputvalues-outofrange'', 100))
                    else checkInputs_loop view height tot rest)))"

definition checkInputs :: "coinView \<Rightarrow> int \<Rightarrow> tx \<Rightarrow> error + feeVerdict" where
  "checkInputs view height t =
     (case checkInputs_loop view height 0 (inputs t) of
        Inl e \<Rightarrow> Inl e
      | Inr (Inl verdict) \<Rightarrow> Inr verdict
      | Inr (Inr tot) \<Rightarrow>
          (let value = getOutputValue t in
           if tot < value then Inr (- 1, ''bad-txns-in-belowout'', 100)
           else
             (let fee = tot - value in
              if fee < 0 then Inr (- 1, ''bad-txns-fee-negative'', 100)
              else if fee > MAX_MONEY then Inr (- 1, ''bad-txns-fee-outofrange'', 100)
              else Inr (fee, ''valid'', 0))))"

text \<open>
  The value of the coin an input spends and whether the spend is premature, for
  stating the checks: a coinbase entry is premature below
  \<open>entry_height + COINBASE_MATURITY\<close>.
\<close>

definition premature :: "int \<Rightarrow> utxoEntry \<Rightarrow> bool" where
  "premature height entry = (entry_coinbase entry \<and> height - entry_height entry < COINBASE_MATURITY)"

definition coinValue :: "utxoEntry \<Rightarrow> int" where
  "coinValue entry = outValue (entry_output entry)"

definition passes :: "coinView \<Rightarrow> int \<Rightarrow> input \<Rightarrow> bool" where
  "passes view height i =
     (case view (prevout i) of
        None \<Rightarrow> False
      | Some entry \<Rightarrow> \<not> premature height entry \<and> 0 \<le> coinValue entry \<and> coinValue entry \<le> MAX_MONEY)"

definition valueOf :: "coinView \<Rightarrow> input \<Rightarrow> int" where
  "valueOf view i = (case view (prevout i) of None \<Rightarrow> 0 | Some entry \<Rightarrow> coinValue entry)"

section \<open>Transaction sanity\<close>

text \<open>
  \<open>checkSanity()\<close> returns \<open>[valid, reason, score]\<close>; here also the transaction, whose
  memo \<open>getSize\<close> may have filled. The three loops return early with a verdict.
  The key of an outpoint in the \<open>BufferSet\<close> is its 36 bytes, which determine the
  hash and the index.
\<close>

type_synonym sanityVerdict = "bool \<times> string \<times> int"

definition toKey :: "outpoint \<Rightarrow> 256 word \<times> u32" where
  "toKey p = (hash p, index p)"

fun checkOutputs_loop :: "int \<Rightarrow> output list \<Rightarrow> sanityVerdict option" where
  "checkOutputs_loop tot [] = None"
| "checkOutputs_loop tot (out # rest) =
     (if outValue out < 0 then Some (False, ''bad-txns-vout-negative'', 100)
      else if outValue out > MAX_MONEY then Some (False, ''bad-txns-vout-toolarge'', 100)
      else
        (let tot = tot + outValue out in
         if tot < 0 \<or> tot > MAX_MONEY then Some (False, ''bad-txns-txouttotal-toolarge'', 100)
         else checkOutputs_loop tot rest))"

fun hasDuplicate_loop :: "(256 word \<times> u32) set \<Rightarrow> input list \<Rightarrow> bool" where
  "hasDuplicate_loop seen [] = False"
| "hasDuplicate_loop seen (i # rest) =
     (let key = toKey (prevout i) in
      if key \<in> seen then True else hasDuplicate_loop (insert key seen) rest)"

fun hasNullPrevout_loop :: "input list \<Rightarrow> bool" where
  "hasNullPrevout_loop [] = False"
| "hasNullPrevout_loop (i # rest) =
     (if isNull (prevout i) then True else hasNullPrevout_loop rest)"

definition checkSanity :: "tx \<Rightarrow> error + (sanityVerdict \<times> tx)" where
  "checkSanity t =
     (if length (inputs t) = 0 then Inr ((False, ''bad-txns-vin-empty'', 100), t)
      else if length (outputs t) = 0 then Inr ((False, ''bad-txns-vout-empty'', 100), t)
      else
        (case getSize t of
           Inl e \<Rightarrow> Inl e
         | Inr (sz, t') \<Rightarrow>
             if sz > MAX_TX_SIZE then Inr ((False, ''bad-txns-oversize'', 100), t')
             else
               (case checkOutputs_loop 0 (outputs t') of
                  Some verdict \<Rightarrow> Inr (verdict, t')
                | None \<Rightarrow>
                    if hasDuplicate_loop {} (inputs t')
                    then Inr ((False, ''bad-txns-inputs-duplicate'', 100), t')
                    else if isCoinbase t' then
                      (let sz = int (length (script (inputs t' ! 0))) in
                       if sz < 2 \<or> sz > MAX_COINBASE_SCRIPTSIG_SIZE
                       then Inr ((False, ''bad-cb-length'', 100), t')
                       else Inr ((True, ''valid'', 0), t'))
                    else if hasNullPrevout_loop (inputs t')
                    then Inr ((False, ''bad-txns-prevout-null'', 10), t')
                    else Inr ((True, ''valid'', 0), t'))))"

text \<open>
  The conditions of the specification (section 4.D, Sanity), in its words: the
  serialized size is the size of the framing, the running total after \<open>k\<close> outputs
  the sum of the first \<open>k\<close> values.
\<close>

definition serializedSize :: "tx \<Rightarrow> int" where
  "serializedSize t = rawSize (getNormalSizes t)"

definition runningTotal :: "tx \<Rightarrow> nat \<Rightarrow> int" where
  "runningTotal t k = sum_list (map outValue (take k (outputs t)))"

definition saneSpec :: "tx \<Rightarrow> bool" where
  "saneSpec t =
     (inputs t \<noteq> []
      \<and> outputs t \<noteq> []
      \<and> serializedSize t \<le> MAX_TX_SIZE
      \<and> (\<forall>out\<in>set (outputs t). 0 \<le> outValue out \<and> outValue out \<le> MAX_MONEY)
      \<and> (\<forall>k\<le>length (outputs t). 0 \<le> runningTotal t k \<and> runningTotal t k \<le> MAX_MONEY)
      \<and> distinct (map prevout (inputs t))
      \<and> (isCoinbase t \<longrightarrow>
            2 \<le> length (script (hd (inputs t))) \<and> length (script (hd (inputs t))) \<le> 100)
      \<and> (\<not> isCoinbase t \<longrightarrow> (\<forall>i\<in>set (inputs t). \<not> isNull (prevout i))))"

text \<open>
  The rejections of the specification: each reason tag with its score and the
  condition that is violated.
\<close>

definition violates :: "tx \<Rightarrow> string \<Rightarrow> int \<Rightarrow> bool" where
  "violates t reason score =
     (reason = ''bad-txns-vin-empty'' \<and> score = 100 \<and> inputs t = []
      \<or> reason = ''bad-txns-vout-empty'' \<and> score = 100 \<and> outputs t = []
      \<or> reason = ''bad-txns-oversize'' \<and> score = 100 \<and> MAX_TX_SIZE < serializedSize t
      \<or> reason = ''bad-txns-vout-negative'' \<and> score = 100
          \<and> (\<exists>out\<in>set (outputs t). outValue out < 0)
      \<or> reason = ''bad-txns-vout-toolarge'' \<and> score = 100
          \<and> (\<exists>out\<in>set (outputs t). MAX_MONEY < outValue out)
      \<or> reason = ''bad-txns-txouttotal-toolarge'' \<and> score = 100
          \<and> (\<exists>k\<le>length (outputs t). runningTotal t k < 0 \<or> MAX_MONEY < runningTotal t k)
      \<or> reason = ''bad-txns-inputs-duplicate'' \<and> score = 100
          \<and> \<not> distinct (map prevout (inputs t))
      \<or> reason = ''bad-cb-length'' \<and> score = 100 \<and> isCoinbase t
          \<and> (length (script (hd (inputs t))) < 2 \<or> 100 < length (script (hd (inputs t))))
      \<or> reason = ''bad-txns-prevout-null'' \<and> score = 10 \<and> \<not> isCoinbase t
          \<and> (\<exists>i\<in>set (inputs t). isNull (prevout i)))"

text \<open>An amount in the range of valid amounts.\<close>

definition inRange :: "int \<Rightarrow> bool" where
  "inRange v = (0 \<le> v \<and> v \<le> MAX_MONEY)"


section \<open>Legacy signature hash\<close>

text \<open>
  \<open>signatureHashV0(index, prev, type)\<close>. The constants of \<open>Script.hashType\<close>, the
  removal of code separators from a script and the double SHA-256 are not among the
  sources; they are parameters: the record \<open>ht\<close>, \<open>removeSeparators\<close> and \<open>hash256\<close>.
  The buffer of \<open>hashSize\<close> bytes only holds what is written. Reading
  \<open>inputs[index]\<close> or \<open>outputs[index]\<close> out of range gives \<open>undefined\<close>, whose fields
  cannot be read.
\<close>

record hashType =
  NONE :: u32
  SINGLE :: u32
  ANYONECANPAY :: u32

definition sighashInputs :: "hashType \<Rightarrow> tx \<Rightarrow> nat \<Rightarrow> bytes \<Rightarrow> u32 \<Rightarrow> error + bytes" where
  "sighashInputs ht t idx prev ty =
     (if ty AND ANYONECANPAY ht \<noteq> 0 then
        (if idx < length (inputs t) then
           (let inp = inputs t ! idx in
            Inr (writeVarint 1
                 @ outpoint_toWriter (prevout inp)
                 @ writeVarBytes prev
                 @ writeU32 (sequence inp)))
         else Inl TypeError)
      else
        Inr (writeVarint (length (inputs t))
             @ concat (map (\<lambda>(i, inp).
                  outpoint_toWriter (prevout inp)
                  @ (if i = idx then writeVarBytes prev @ writeU32 (sequence inp)
                     else writeVarint 0
                          @ (if ty AND 0x1f = NONE ht \<or> ty AND 0x1f = SINGLE ht
                             then writeU32 0
                             else writeU32 (sequence inp))))
                (enumerate 0 (inputs t)))))"

definition sighashOutputs :: "hashType \<Rightarrow> tx \<Rightarrow> nat \<Rightarrow> u32 \<Rightarrow> error + bytes" where
  "sighashOutputs ht t idx ty =
     (if ty AND 0x1f = NONE ht then Inr (writeVarint 0)
      else if ty AND 0x1f = SINGLE ht then
        (if idx < length (outputs t) then
           (let out = outputs t ! idx in
            Inr (writeVarint (idx + 1)
                 @ concat (replicate idx (writeI64 (- 1) @ writeVarint 0))
                 @ output_toWriter out))
         else Inl TypeError)
      else
        Inr (writeVarint (length (outputs t))
             @ concat (map output_toWriter (outputs t))))"

definition signatureHashV0 ::
  "hashType \<Rightarrow> (bytes \<Rightarrow> bytes) \<Rightarrow> (bytes \<Rightarrow> bytes) \<Rightarrow> tx \<Rightarrow> nat \<Rightarrow> bytes \<Rightarrow> u32 \<Rightarrow> error + bytes" where
  "signatureHashV0 ht removeSeparators hash256 t idx prev ty =
     (if ty AND 0x1f = SINGLE ht \<and> idx \<ge> length (outputs t)
      then Inr ((replicate 32 0x00)[0 := 0x01])
      else
        (let prev = removeSeparators prev in
         case sighashInputs ht t idx prev ty of
           Inl e \<Rightarrow> Inl e
         | Inr ins \<Rightarrow>
             (case sighashOutputs ht t idx ty of
                Inl e \<Rightarrow> Inl e
              | Inr outs \<Rightarrow>
                  Inr (hash256 (writeU32 (version t) @ ins @ outs
                                @ writeU32 (locktime t) @ writeU32 ty)))))"

text \<open>Bitcoin's values of the hash types.\<close>

definition bitcoinHashType :: hashType where
  "bitcoinHashType = \<lparr>NONE = 2, SINGLE = 3, ANYONECANPAY = 0x80\<rparr>"

section \<open>Blocks (primitives/block)\<close>

text \<open>
  A block with the 80 bytes that \<open>writeHead\<close> writes (the header class is not among
  the sources), its merkle root, its transactions, the \<open>mutable\<close> flag and the memo of
  its serialization, as for a transaction. A call of \<open>getSize\<close>, \<open>toRaw\<close> or
  \<open>checkSanity\<close> on a transaction may fill that transaction's memo; a later call then
  returns what the first computed, so every call is evaluated on the state at entry.
\<close>

record block =
  head :: bytes
  merkleRoot :: bytes
  txs :: "tx list"
  blockMutable :: bool
  blockMemo :: bool

record rawBlock =
  rawBlockSize :: int
  rawBlockData :: "bytes option"

fun sumSizes :: "int \<Rightarrow> tx list \<Rightarrow> error + int" where
  "sumSizes sz [] = Inr sz"
| "sumSizes sz (t # rest) =
     (case getSize t of
        Inl e \<Rightarrow> Inl e
      | Inr (s, t') \<Rightarrow> sumSizes (sz + s) rest)"

definition block_getNormalSizes :: "block \<Rightarrow> error + rawBlock" where
  "block_getNormalSizes b =
     (let sz = 0;
          sz = sz + 80;
          sz = sz + sizeVarint (length (txs b)) in
      case sumSizes sz (txs b) of
        Inl e \<Rightarrow> Inl e
      | Inr sz \<Rightarrow> Inr \<lparr>rawBlockSize = sz, rawBlockData = None\<rparr>)"

text \<open>\<open>tx.toWriter(bw)\<close>: a mutable transaction is written, another one framed.\<close>

definition tx_toWriter :: "tx \<Rightarrow> error + bytes" where
  "tx_toWriter t =
     (if mutable t then writeNormal t
      else
        (case frame t of
           Inl e \<Rightarrow> Inl e
         | Inr (raw, t') \<Rightarrow>
             (case rawData raw of None \<Rightarrow> Inl TypeError | Some d \<Rightarrow> Inr d)))"

fun txs_toWriter :: "tx list \<Rightarrow> error + bytes" where
  "txs_toWriter [] = Inr []"
| "txs_toWriter (t # rest) =
     (case tx_toWriter t of
        Inl e \<Rightarrow> Inl e
      | Inr d \<Rightarrow> (case txs_toWriter rest of Inl e \<Rightarrow> Inl e | Inr ds \<Rightarrow> Inr (d @ ds)))"

definition block_writeNormal :: "block \<Rightarrow> error + bytes" where
  "block_writeNormal b =
     (case txs_toWriter (txs b) of
        Inl e \<Rightarrow> Inl e
      | Inr ds \<Rightarrow> Inr (head b @ writeVarint (length (txs b)) @ ds))"

definition block_frameNormal :: "block \<Rightarrow> error + rawBlock" where
  "block_frameNormal b =
     (case block_getNormalSizes b of
        Inl e \<Rightarrow> Inl e
      | Inr raw \<Rightarrow>
          (case block_writeNormal b of
             Inl e \<Rightarrow> Inl e
           | Inr bw \<Rightarrow> Inr (raw\<lparr>rawBlockData := Some bw\<rparr>)))"

text \<open>
  What the memo of a block holds: the size and the bytes of its framing, each
  transaction with its own framing.
\<close>

definition blockSize :: "block \<Rightarrow> int" where
  "blockSize b = 80 + sizeVarint (length (txs b)) + sum_list (map serializedSize (txs b))"

definition blockBytes :: "block \<Rightarrow> bytes" where
  "blockBytes b = head b @ writeVarint (length (txs b)) @ concat (map txBytes (txs b))"

definition block_frame :: "block \<Rightarrow> error + rawBlock" where
  "block_frame b =
     (if blockMutable b then
        (if blockMemo b then Inl AssertionError else block_frameNormal b)
      else if blockMemo b then
        (if \<not> blockSize b \<ge> 0 then Inl AssertionError
         else Inr \<lparr>rawBlockSize = blockSize b, rawBlockData = Some (blockBytes b)\<rparr>)
      else block_frameNormal b)"

definition block_getSize :: "block \<Rightarrow> error + int" where
  "block_getSize b =
     (if blockMutable b then
        (case block_getNormalSizes b of Inl e \<Rightarrow> Inl e | Inr raw \<Rightarrow> Inr (rawBlockSize raw))
      else
        (case block_frame b of Inl e \<Rightarrow> Inl e | Inr raw \<Rightarrow> Inr (rawBlockSize raw)))"

text \<open>
  \<open>tx.hash()\<close> is the double SHA-256 of the framing; \<open>merkle.createRoot\<close> (returning
  the root and whether the tree is malleated) and the sigop count of a script are
  parameters, with \<open>hash256\<close>.
\<close>

definition tx_hash :: "(bytes \<Rightarrow> bytes) \<Rightarrow> tx \<Rightarrow> error + bytes" where
  "tx_hash hash256 t =
     (case frame t of
        Inl e \<Rightarrow> Inl e
      | Inr (raw, t') \<Rightarrow>
          (case rawData raw of None \<Rightarrow> Inl TypeError | Some d \<Rightarrow> Inr (hash256 d)))"

fun leaves_loop :: "(bytes \<Rightarrow> bytes) \<Rightarrow> tx list \<Rightarrow> error + bytes list" where
  "leaves_loop hash256 [] = Inr []"
| "leaves_loop hash256 (t # rest) =
     (case tx_hash hash256 t of
        Inl e \<Rightarrow> Inl e
      | Inr h \<Rightarrow>
          (case leaves_loop hash256 rest of Inl e \<Rightarrow> Inl e | Inr hs \<Rightarrow> Inr (h # hs)))"

definition createMerkleRoot ::
  "(bytes \<Rightarrow> bytes) \<Rightarrow> (bytes list \<Rightarrow> bytes \<times> bool) \<Rightarrow> block \<Rightarrow> error + bytes option" where
  "createMerkleRoot hash256 createRoot b =
     (case leaves_loop hash256 (txs b) of
        Inl e \<Rightarrow> Inl e
      | Inr leaves \<Rightarrow>
          (let (root, malleated) = createRoot leaves in
           if malleated then Inr None else Inr (Some root)))"

definition getLegacySigops :: "(bytes \<Rightarrow> int) \<Rightarrow> tx \<Rightarrow> int" where
  "getLegacySigops getSigops t =
     (let tot = 0;
          tot = fold (\<lambda>i s. s + getSigops (script i)) (inputs t) tot;
          tot = fold (\<lambda>out s. s + getSigops (outScript out)) (outputs t) tot
      in tot)"

fun checkBody_loop ::
  "(bytes \<Rightarrow> int) \<Rightarrow> int \<Rightarrow> nat \<Rightarrow> int \<Rightarrow> tx list \<Rightarrow> error + sanityVerdict" where
  "checkBody_loop getSigops sz i sigops [] = Inr (True, ''valid'', 0)"
| "checkBody_loop getSigops sz i sigops (t # rest) =
     (if i > 0 \<and> isCoinbase t then Inr (False, ''bad-cb-multiple'', 100)
      else
        (case checkSanity t of
           Inl e \<Rightarrow> Inl e
         | Inr ((valid, reason, score), t') \<Rightarrow>
             if \<not> valid then Inr (valid, reason, score)
             else
               (let sigops = sigops + getLegacySigops getSigops t in
                if sigops > maxBlockSigops sz then Inr (False, ''bad-blk-sigops'', 100)
                else checkBody_loop getSigops sz (i + 1) sigops rest)))"

definition checkBody ::
  "(bytes \<Rightarrow> bytes) \<Rightarrow> (bytes list \<Rightarrow> bytes \<times> bool) \<Rightarrow> (bytes \<Rightarrow> int) \<Rightarrow> block
     \<Rightarrow> error + sanityVerdict" where
  "checkBody hash256 createRoot getSigops b =
     (if length (txs b) = 0 \<or> int (length (txs b)) > MAX_FORK_BLOCK_SIZE div 10
      then Inr (False, ''bad-blk-length'', 100)
      else
        (case block_getSize b of
           Inl e \<Rightarrow> Inl e
         | Inr sz \<Rightarrow>
             if sz > MAX_FORK_BLOCK_SIZE then Inr (False, ''bad-blk-length'', 100)
             else if length (txs b) = 0 \<or> \<not> isCoinbase (txs b ! 0)
             then Inr (False, ''bad-cb-missing'', 100)
             else
               (case createMerkleRoot hash256 createRoot b of
                  Inl e \<Rightarrow> Inl e
                | Inr None \<Rightarrow> Inr (False, ''bad-txns-duplicate'', 100)
                | Inr (Some root) \<Rightarrow>
                    if merkleRoot b \<noteq> root then Inr (False, ''bad-txnmrklroot'', 100)
                    else checkBody_loop getSigops sz 0 0 (txs b))))"

section \<open>Addresses (primitives/address)\<close>

text \<open>
  A JavaScript string is the list of its UTF-16 code units (\<open>charCodeAt\<close>). The
  Base58 and cashaddr codecs are a library outside the sources: \<open>decode58\<close> stands for
  \<open>fromRaw(base58.decode(data))\<close> and \<open>decodeCash\<close> for the body of \<open>fromCashAddr\<close>.
  \<open>fromString\<close> returns, with its result, the decoders it called, in order.
\<close>

type_synonym jsString = "nat list"

record address =
  addrType :: nat
  addrHash :: bytes

datatype decoder = Base58 | CashAddr

fun isMixedCase_loop :: "bool \<Rightarrow> bool \<Rightarrow> jsString \<Rightarrow> error + bool" where
  "isMixedCase_loop lower upper [] = Inr False"
| "isMixedCase_loop lower upper (ch # rest) =
     (if ch \<ge> 0x30 \<and> ch \<le> 0x39 then isMixedCase_loop lower upper rest
      else if ch = 0x3a then isMixedCase_loop lower upper rest
      else if ch AND 32 \<noteq> 0 then
        (if \<not> (ch \<ge> 0x61 \<and> ch \<le> 0x7a) then Inl AssertionError
         else if True \<and> upper then Inr True
         else isMixedCase_loop True upper rest)
      else
        (if \<not> (ch \<ge> 0x41 \<and> ch \<le> 0x5a) then Inl AssertionError
         else if lower \<and> True then Inr True
         else isMixedCase_loop lower True rest))"

definition isMixedCase :: "jsString \<Rightarrow> error + bool" where
  "isMixedCase str = isMixedCase_loop False False str"

definition fromBase58 :: "(jsString \<Rightarrow> error + address) \<Rightarrow> jsString \<Rightarrow> error + address" where
  "fromBase58 decode58 data =
     (if length data > 55 then Inl ParseError else decode58 data)"

definition fromCashAddr :: "(jsString \<Rightarrow> error + address) \<Rightarrow> jsString \<Rightarrow> error + address" where
  "fromCashAddr decodeCash data = decodeCash data"

definition fromString ::
  "(jsString \<Rightarrow> error + address) \<Rightarrow> (jsString \<Rightarrow> error + address) \<Rightarrow> jsString
     \<Rightarrow> decoder list \<times> (error + address)" where
  "fromString decode58 decodeCash addr =
     (if \<not> length addr > 0 then ([], Inl AssertionError)
      else if \<not> length addr \<le> 100 then ([], Inl AssertionError)
      else
        (case isMixedCase addr of
           Inl e \<Rightarrow> ([], Inl e)
         | Inr True \<Rightarrow> ([Base58], fromBase58 decode58 addr)
         | Inr False \<Rightarrow>
             (case fromCashAddr decodeCash addr of
                Inr a \<Rightarrow> ([CashAddr], Inr a)
              | Inl e \<Rightarrow> ([CashAddr, Base58], fromBase58 decode58 addr))))"

text \<open>
  The character classes of the claims: ASCII digits, the colon, ASCII upper and lower
  case letters; a string is mixed case when it has a letter of each case.
\<close>

definition isDigit :: "nat \<Rightarrow> bool" where
  "isDigit ch = (0x30 \<le> ch \<and> ch \<le> 0x39)"

definition isUpper :: "nat \<Rightarrow> bool" where
  "isUpper ch = (0x41 \<le> ch \<and> ch \<le> 0x5a)"

definition isLower :: "nat \<Rightarrow> bool" where
  "isLower ch = (0x61 \<le> ch \<and> ch \<le> 0x7a)"

definition allowedChar :: "nat \<Rightarrow> bool" where
  "allowedChar ch = (isDigit ch \<or> ch = 0x3a \<or> isUpper ch \<or> isLower ch)"

definition hasUpper :: "jsString \<Rightarrow> bool" where
  "hasUpper str = (\<exists>ch\<in>set str. isUpper ch)"

definition hasLower :: "jsString \<Rightarrow> bool" where
  "hasLower str = (\<exists>ch\<in>set str. isLower ch)"

definition mixedCase :: "jsString \<Rightarrow> bool" where
  "mixedCase str = (hasUpper str \<and> hasLower str)"

text \<open>The code units of a string literal.\<close>

definition codeUnits :: "string \<Rightarrow> jsString" where
  "codeUnits s = map of_char s"

text \<open>Decoders that reject everything, for running the dispatch.\<close>

definition rejectAll :: "jsString \<Rightarrow> error + address" where
  "rejectAll s = Inl ParseError"

section \<open>Block assembly (mining/miner)\<close>

text \<open>
  \<open>tx.isFinal(height, time)\<close>.
\<close>

definition LOCKTIME_THRESHOLD :: int where
  "LOCKTIME_THRESHOLD = 500000000"

fun allSequencesFinal :: "input list \<Rightarrow> bool" where
  "allSequencesFinal [] = True"
| "allSequencesFinal (i # rest) =
     (if sequence i \<noteq> 0xffffffff then False else allSequencesFinal rest)"

definition isFinal :: "tx \<Rightarrow> int \<Rightarrow> int \<Rightarrow> bool" where
  "isFinal t height time =
     (if uint (locktime t) = 0 then True
      else if uint (locktime t) < (if uint (locktime t) < LOCKTIME_THRESHOLD then height else time)
      then True
      else allSequencesFinal (inputs t))"

text \<open>
  Modelled from the spec: the block template and its entries are not among the
  sources. An entry has the fields the assembler reads (transaction, hash, fee, rate,
  priority, the free flag, sigops, the rate with descendants and the count of
  in-pool parents); the template has the running size, sigop count and fees, the
  ordered entries, the height and the locktime (section 3 of the specification).
  Entries are objects shared by the dependency map, the heap and the template:
  \<open>store\<close> maps the address of an entry to the entry, and the other structures hold
  addresses. Rates and priorities are numbers, compared by the sign of a difference.
\<close>

record blockEntry =
  entryTx :: tx
  entryHash :: "256 word"
  entryFee :: int
  rate :: int
  priority :: int
  free :: bool
  entrySigops :: int
  descRate :: int
  depCount :: int

record blockTemplate =
  tplSize :: int
  tplSigops :: int
  tplFees :: int
  tplItems :: "nat list"
  tplHeight :: int
  tplLocktime :: int

record minerOptions =
  minSize :: int
  maxSize :: int
  maxSigops :: int
  prioritySize :: int
  priorityThreshold :: int

definition cmpRate :: "blockEntry \<Rightarrow> blockEntry \<Rightarrow> int" where
  "cmpRate a b =
     (let x = rate a;
          y = rate b;
          x = (if descRate a > rate a then descRate a else x);
          y = (if descRate b > rate b then descRate b else y);
          (x, y) = (if x = y then (priority a, priority b) else (x, y))
      in y - x)"

definition cmpPriority :: "blockEntry \<Rightarrow> blockEntry \<Rightarrow> int" where
  "cmpPriority a b =
     (if priority a = priority b then cmpRate a b else priority b - priority a)"

text \<open>
  The heap is a library outside the sources. It is a priority queue: the list of the
  addresses it holds, and \<open>shift\<close> removes an element that the comparator puts
  before or beside every other one. \<open>isTop\<close> says that \<open>a\<close> may be the element
  shifted.
\<close>

definition isTop ::
  "(blockEntry \<Rightarrow> blockEntry \<Rightarrow> int) \<Rightarrow> (nat \<Rightarrow> blockEntry) \<Rightarrow> nat list \<Rightarrow> nat \<Rightarrow> bool" where
  "isTop cmp store q a = (a \<in> set q \<and> (\<forall>b\<in>set q. cmp (store a) (store b) \<le> 0))"

record assembleState =
  store :: "nat \<Rightarrow> blockEntry"
  queue :: "nat list"
  priorityPhase :: bool
  attempt :: blockTemplate

text \<open>The comparator of the heap: \<open>cmpPriority\<close> while \<open>priority\<close> is set.\<close>

definition queueCmp :: "assembleState \<Rightarrow> blockEntry \<Rightarrow> blockEntry \<Rightarrow> int" where
  "queueCmp s = (if priorityPhase s then cmpPriority else cmpRate)"

text \<open>
  The loop over the dependents of a committed entry: \<open>--item.depCount\<close> and the
  insertion of the entries that reach zero.
\<close>

fun releaseDeps :: "(nat \<Rightarrow> blockEntry) \<Rightarrow> nat list \<Rightarrow> nat list \<Rightarrow> (nat \<Rightarrow> blockEntry) \<times> nat list" where
  "releaseDeps st q [] = (st, q)"
| "releaseDeps st q (d # deps) =
     (let c = depCount (st d) - 1;
          st = st(d := (st d)\<lparr>depCount := c\<rparr>)
      in if c = 0 then releaseDeps st (q @ [d]) deps else releaseDeps st q deps)"

text \<open>
  The body of the \<open>while\<close> loop for the entry at address \<open>a\<close> that \<open>shift\<close> has
  returned (the queue of \<open>s\<close> no longer holds it). \<open>continue\<close> returns the state.
\<close>

definition assembleBody ::
  "minerOptions \<Rightarrow> (256 word \<Rightarrow> nat list option) \<Rightarrow> assembleState \<Rightarrow> nat
     \<Rightarrow> error + assembleState" where
  "assembleBody options depMap s a =
     (let item = store s a;
          t = entryTx item;
          h = entryHash item;
          sz = tplSize (attempt s);
          so = tplSigops (attempt s)
      in
      if \<not> isFinal t (tplHeight (attempt s)) (tplLocktime (attempt s)) then Inr s
      else
        (case getSize t of
           Inl e \<Rightarrow> Inl e
         | Inr (tsz, t') \<Rightarrow>
             (let sz = sz + tsz in
              if sz > maxSize options then Inr s
              else
                (let so = so + entrySigops item in
                 if so > maxSigops options then Inr s
                 else if priorityPhase s
                         \<and> (sz > prioritySize options \<or> priority item < priorityThreshold options)
                 then Inr (s\<lparr>priorityPhase := False, queue := queue s @ [a]\<rparr>)
                 else if \<not> priorityPhase s \<and> free item \<and> sz \<ge> minSize options then Inr s
                 else
                   (let att = (attempt s)\<lparr>tplSize := sz, tplSigops := so,
                                tplFees := tplFees (attempt s) + entryFee item,
                                tplItems := tplItems (attempt s) @ [a]\<rparr> in
                    case depMap h of
                      None \<Rightarrow> Inr (s\<lparr>attempt := att\<rparr>)
                    | Some deps \<Rightarrow>
                        (let (st, q) = releaseDeps (store s) (queue s) deps
                         in Inr (s\<lparr>store := st, queue := q, attempt := att\<rparr>)))))))"

text \<open>
  One iteration of the loop: \<open>shift\<close> returns some top \<open>a\<close> of the non-empty queue
  and the body runs on the rest.
\<close>

definition assembleStep ::
  "minerOptions \<Rightarrow> (256 word \<Rightarrow> nat list option) \<Rightarrow> assembleState \<Rightarrow> nat
     \<Rightarrow> (error + assembleState) option" where
  "assembleStep options depMap s a =
     (if isTop (queueCmp s) (store s) (queue s) a
      then Some (assembleBody options depMap (s\<lparr>queue := remove1 a (queue s)\<rparr>) a)
      else None)"

text \<open>
  The rate that orders the fee-rate phase, and whether the template has room for an
  entry whose transaction takes \<open>tsz\<close> bytes.
\<close>

definition effectiveRate :: "blockEntry \<Rightarrow> int" where
  "effectiveRate e = max (rate e) (descRate e)"

definition fits :: "minerOptions \<Rightarrow> blockTemplate \<Rightarrow> blockEntry \<Rightarrow> int \<Rightarrow> bool" where
  "fits options att e tsz =
     (tplSize att + tsz \<le> maxSize options \<and> tplSigops att + entrySigops e \<le> maxSigops options)"

text \<open>The entries that the dependency map lists under the hash of an entry.\<close>

definition dependents :: "(256 word \<Rightarrow> nat list option) \<Rightarrow> blockEntry \<Rightarrow> nat list" where
  "dependents depMap e = (case depMap (entryHash e) of None \<Rightarrow> [] | Some deps \<Rightarrow> deps)"

section \<open>Sample data\<close>

text \<open>
  Four outpoints, a view that knows three of them (an ordinary coin of 5000 satoshis,
  a coinbase coin of 7000 satoshis created at height 100 and a coin with a negative
  value) and inputs spending them.
\<close>

definition opA :: outpoint where
  "opA = \<lparr>hash = 1, index = 0\<rparr>"

definition opB :: outpoint where
  "opB = \<lparr>hash = 2, index = 0\<rparr>"

definition opC :: outpoint where
  "opC = \<lparr>hash = 3, index = 0\<rparr>"

definition opD :: outpoint where
  "opD = \<lparr>hash = 4, index = 0\<rparr>"

definition entryA :: utxoEntry where
  "entryA = \<lparr>entry_output = \<lparr>outValue = 5000, outScript = []\<rparr>, entry_height = 10,
             entry_coinbase = False\<rparr>"

definition entryB :: utxoEntry where
  "entryB = \<lparr>entry_output = \<lparr>outValue = 7000, outScript = []\<rparr>, entry_height = 100,
             entry_coinbase = True\<rparr>"

definition entryD :: utxoEntry where
  "entryD = \<lparr>entry_output = \<lparr>outValue = - 1, outScript = []\<rparr>, entry_height = 10,
             entry_coinbase = False\<rparr>"

definition sampleView :: coinView where
  "sampleView = [opA \<mapsto> entryA, opB \<mapsto> entryB, opD \<mapsto> entryD]"

definition spend :: "outpoint \<Rightarrow> input" where
  "spend p = \<lparr>prevout = p, script = [], sequence = 0xffffffff\<rparr>"

definition pay :: "int \<Rightarrow> output" where
  "pay v = \<lparr>outValue = v, outScript = []\<rparr>"

definition sampleTx :: "input list \<Rightarrow> output list \<Rightarrow> tx" where
  "sampleTx ins outs =
     \<lparr>version = 1, inputs = ins, outputs = outs, locktime = 0, mutable = False, memo = False\<rparr>"

text \<open>
  A coinbase transaction and a block holding it, checked with a merkle tree whose root
  is empty and never malleated, and scripts without signature operations.
\<close>

definition coinbaseTx :: tx where
  "coinbaseTx =
     sampleTx [\<lparr>prevout = \<lparr>hash = 0, index = 0xffffffff\<rparr>, script = [0x01, 0x02],
                sequence = 0xffffffff\<rparr>] [pay 5000000000]"

definition sampleBlock :: block where
  "sampleBlock =
     \<lparr>head = replicate 80 0, merkleRoot = [], txs = [coinbaseTx], blockMutable = False,
      blockMemo = False\<rparr>"

definition sampleRoot :: "bytes list \<Rightarrow> bytes \<times> bool" where
  "sampleRoot leaves = ([], False)"

definition noSigops :: "bytes \<Rightarrow> int" where
  "noSigops s = 0"

text \<open>
  A mempool of two entries: the entry at address 1 spends an output of the entry at
  address 0 (hash 10); a free entry; options and a template of 1000 bytes.
\<close>

definition parentEntry :: blockEntry where
  "parentEntry =
     \<lparr>entryTx = sampleTx [spend opA] [pay 6000], entryHash = 10, entryFee = 500, rate = 8000,
      priority = 0, free = False, entrySigops = 1, descRate = 9000, depCount = 0\<rparr>"

definition childEntry :: blockEntry where
  "childEntry =
     \<lparr>entryTx = sampleTx [spend opB] [pay 6000], entryHash = 11, entryFee = 700, rate = 12000,
      priority = 0, free = False, entrySigops = 1, descRate = 0, depCount = 1\<rparr>"

definition freeEntry :: blockEntry where
  "freeEntry =
     \<lparr>entryTx = sampleTx [spend opA] [pay 6000], entryHash = 12, entryFee = 0, rate = 0,
      priority = 0, free = True, entrySigops = 1, descRate = 0, depCount = 0\<rparr>"

definition sampleOptions :: minerOptions where
  "sampleOptions =
     \<lparr>minSize = 0, maxSize = 1000000, maxSigops = 20000, prioritySize = 0,
      priorityThreshold = 0\<rparr>"

definition sampleTemplate :: blockTemplate where
  "sampleTemplate =
     \<lparr>tplSize = 1000, tplSigops = 400, tplFees = 0, tplItems = [], tplHeight = 100,
      tplLocktime = 0\<rparr>"

definition sampleDepMap :: "256 word \<Rightarrow> nat list option" where
  "sampleDepMap = [10 \<mapsto> [1]]"

definition sampleState :: assembleState where
  "sampleState =
     \<lparr>store = (\<lambda>a. if a = 0 then parentEntry else childEntry), queue = [0],
      priorityPhase = False, attempt = sampleTemplate\<rparr>"

definition freeState :: assembleState where
  "freeState =
     \<lparr>store = (\<lambda>a. freeEntry), queue = [0], priorityPhase = False, attempt = sampleTemplate\<rparr>"
section \<open>Reward schedule\<close>

lemma sum_div_blocks:
  fixes g :: "nat \<Rightarrow> int"
  assumes "0 < i"
  shows "(\<Sum>h<n * i. g (h div i)) = int i * (\<Sum>k<n. g k)"
proof (induction n)
  case 0
  show ?case by simp
next
  case (Suc n)
  have split: "{..<Suc n * i} = {..<n * i} \<union> {n * i..<n * i + i}"
    by auto
  have "(\<Sum>h<Suc n * i. g (h div i)) =
        (\<Sum>h<n * i. g (h div i)) + (\<Sum>h = n * i..<n * i + i. g (h div i))"
    unfolding split by (rule sum.union_disjoint) auto
  moreover have "(\<Sum>h = n * i..<n * i + i. g (h div i)) = (\<Sum>h = n * i..<n * i + i. g n)"
  proof (rule sum.cong)
    fix h assume "h \<in> {n * i..<n * i + i}"
    then have "h div i = n"
      using assms by (auto intro!: div_nat_eqI simp: mult.commute)
    then show "g (h div i) = g n" by simp
  qed simp
  ultimately show ?case
    using Suc.IH by (simp add: algebra_simps)
qed

lemma getReward_era:
  assumes "0 < i" "h div i < 33"
  shows "getReward (int h) (int i) = Inr (eraReward (h div i))"
proof -
  have d: "int h div int i = int (h div i)" by (simp add: zdiv_int)
  have m: "nat ((int (h div i) - 1) mod 32) = h div i - 1" if "h div i \<noteq> 0"
    using that assms(2) by (simp add: nat_diff_distrib' of_nat_diff mod_pos_pos_trivial)
  show ?thesis using assms m
    by (auto simp: getReward_def eraReward_def d Let_def)
qed

lemma getReward_exhausted:
  assumes "0 < i" "33 * i \<le> h"
  shows "getReward (int h) (int i) = Inr 0"
proof -
  have "33 \<le> h div i" using assms by (simp add: less_eq_div_iff_mult_less_eq mult.commute)
  then have "33 \<le> int h div int i" by (simp add: zdiv_int[symmetric] del: zdiv_int)
  then show ?thesis using assms by (simp add: getReward_def Let_def)
qed

lemma eraReward_sum: "(\<Sum>k<33. eraReward k) = 9999999989"
  by (simp add: eraReward_def BASE_REWARD_def HALF_REWARD_def COIN_def eval_nat_numeral drop_bit_eq_div)

lemma totalReward_eq:
  assumes "0 < i" "33 * i \<le> N"
  shows "totalReward (int i) N = int i * 9999999989"
proof -
  have split: "{..<N} = {..<33 * i} \<union> {33 * i..<N}" using assms(2) by auto
  have "totalReward (int i) N =
        (\<Sum>h<33 * i. subsidy (int i) h) + (\<Sum>h = 33 * i..<N. subsidy (int i) h)"
    unfolding totalReward_def split by (rule sum.union_disjoint) auto
  moreover have "(\<Sum>h = 33 * i..<N. subsidy (int i) h) = 0"
    using assms(1) by (intro sum.neutral) (simp add: subsidy_def getReward_exhausted)
  moreover have "(\<Sum>h<33 * i. subsidy (int i) h) = (\<Sum>h<33 * i. eraReward (h div i))"
  proof (rule sum.cong)
    fix h assume "h \<in> {..<33 * i}"
    then have "h div i < 33" using assms(1) by (simp add: div_less_iff_less_mult mult.commute)
    then show "subsidy (int i) h = eraReward (h div i)"
      using assms(1) by (simp add: subsidy_def getReward_era)
  qed simp
  ultimately show ?thesis
    using sum_div_blocks[OF assms(1), of eraReward 33] by (simp add: eraReward_sum)
qed

lemma reward_total_short: "int i * 9999999989 \<noteq> 21000000 * COIN"
proof
  assume a: "int i * 9999999989 = 21000000 * COIN"
  have "(9999999989::int) dvd int i * 9999999989"
    by (rule dvd_triv_right)
  then have "(9999999989::int) dvd 21000000 * COIN"
    by (simp only: a)
  then show False
    by (simp add: COIN_def)
qed

text \<open>
  Claim C1 (as amended). For a positive halving interval \<open>i\<close> the reward is the
  era's subsidy (\<open>BASE_REWARD\<close> in era 0, \<open>HALF_REWARD >> (era - 1)\<close> up to era 32,
  zero from era 33 on); every partial sum that reaches height \<open>33 * i\<close> has the same
  value, \<open>i * 9999999989\<close> satoshis, and that value is never \<open>21000000 * COIN\<close>.
\<close>

theorem reward_sum_total:
  assumes "0 < i" and "33 * i \<le> N"
  shows "getReward (int N) (int i) = Inr 0
       \<and> getReward (int h) (int i) =
           Inr (if 33 \<le> h div i then 0
                else if h div i = 0 then BASE_REWARD
                else drop_bit (h div i - 1) HALF_REWARD)
       \<and> totalReward (int i) N = int i * 9999999989
       \<and> totalReward (int i) N \<noteq> 21000000 * COIN"
proof -
  have era: "getReward (int h) (int i) =
           Inr (if 33 \<le> h div i then 0
                else if h div i = 0 then BASE_REWARD
                else drop_bit (h div i - 1) HALF_REWARD)"
  proof (cases "33 \<le> h div i")
    case True
    then have "33 * i \<le> h"
      using assms(1) by (simp add: less_eq_div_iff_mult_less_eq mult.commute)
    then show ?thesis using True assms(1) by (simp add: getReward_exhausted)
  next
    case False
    then show ?thesis using assms(1) by (simp add: getReward_era eraReward_def)
  qed
  show ?thesis
    using era getReward_exhausted[OF assms] totalReward_eq[OF assms] reward_total_short[of i]
    by simp
qed

theorem reward_sum_total_witness:
  "getReward 7000000 210000 = Inr 0
   \<and> getReward 420000 210000 = Inr (drop_bit 1 HALF_REWARD)
   \<and> totalReward 210000 7000000 = 2099999997690000"
  using reward_sum_total[of 210000 7000000 420000] by simp

text \<open>
  With the halving interval 210000 of the main network the rewards of all heights add
  up to 2310000 satoshis less than \<open>21000000 * COIN\<close>.
\<close>

theorem reward_sum_counterexample:
  "totalReward 210000 6930000 = 21000000 * COIN - 2310000"
  using totalReward_eq[of 210000 6930000] by (simp add: COIN_def)

section \<open>Compact target round trip\<close>

lemma toInt32_id: "0 \<le> x \<Longrightarrow> x < 2 ^ 31 \<Longrightarrow> toInt32 x = x"
  unfolding toInt32_def by (rule signed_take_bit_int_eq_self) simp_all

lemma js_and_mantissa: "js_and c 0x7fffff = c mod 2 ^ 23"
proof -
  have m: "(0x7fffff::int) = mask 23" by (simp add: mask_eq_exp_minus_1)
  have "js_and c 0x7fffff = signed_take_bit 31 c AND mask 23"
    by (simp add: js_and_def toInt32_def signed_take_bit_int_eq_self m[symmetric])
  also have "\<dots> = take_bit 23 (signed_take_bit 31 c)"
    by (simp add: take_bit_eq_mask)
  also have "\<dots> = take_bit 23 c"
    by (simp add: take_bit_signed_take_bit)
  finally show ?thesis by (simp add: take_bit_eq_mod)
qed

lemma js_shr_eq: "0 \<le> k \<Longrightarrow> k < 32 \<Longrightarrow> js_shr a k = (a mod 2 ^ 32) div 2 ^ nat k"
  by (simp add: js_shr_def toUint32_def take_bit_eq_mod drop_bit_eq_div)

lemma js_and_one: "0 \<le> x \<Longrightarrow> x < 2 ^ 31 \<Longrightarrow> js_and x 1 = x mod 2"
  by (simp add: js_and_def toInt32_id and_one_eq)

lemma bit23_iff:
  assumes "0 \<le> x" "x < 2 ^ 24"
  shows "(js_and x 0x800000 \<noteq> 0) = (2 ^ 23 \<le> x)"
proof -
  have x: "toInt32 x = x" using assms by (simp add: toInt32_id)
  have c: "toInt32 0x800000 = 2 ^ 23" by (simp add: toInt32_def signed_take_bit_int_eq_self)
  have "(x AND 2 ^ 23 \<noteq> 0) = bit x 23"
    using and_exp_eq_0_iff_not_bit[of x 23] by blast
  also have "\<dots> = odd (x div 2 ^ 23)"
    by (simp add: bit_iff_odd)
  also have "\<dots> = (2 ^ 23 \<le> x)"
  proof (cases "2 ^ 23 \<le> x")
    case True
    then have "x div 2 ^ 23 = 1" using assms by (intro int_div_pos_eq[where r="x - 2 ^ 23"]) simp_all
    then show ?thesis using True by simp
  next
    case False
    then have "x div 2 ^ 23 = 0" using assms by (simp add: div_pos_pos_trivial)
    then show ?thesis using False by simp
  qed
  finally show ?thesis unfolding js_and_def x c .
qed


lemma fromCompact_arith:
  "fromCompact c =
     (if c = 0 then 0
      else
        let e = (c mod 2 ^ 32) div 2 ^ 24;
            m = c mod 2 ^ 23;
            num = (if e \<le> 3 then m div 2 ^ nat (8 * (3 - e)) else m * 2 ^ nat (8 * (e - 3)))
        in if (c mod 2 ^ 32) div 2 ^ 23 mod 2 \<noteq> 0 then - num else num)"
proof -
  define e where "e = (c mod 2 ^ 32) div 2 ^ 24"
  define m where "m = c mod 2 ^ 23"
  have e: "js_shr c 24 = e" by (simp add: js_shr_eq e_def)
  have m: "js_and c 0x7fffff = m" by (simp add: js_and_mantissa m_def)
  have e0: "0 \<le> e" by (simp add: e_def pos_imp_zdiv_nonneg_iff)
  have mb: "0 \<le> m" "m < 2 ^ 23" by (simp_all add: m_def)
  have s: "js_shr c 23 = (c mod 2 ^ 32) div 2 ^ 23" by (simp add: js_shr_eq)
  have "c mod 2 ^ 32 \<le> 2 ^ 32 - 1" by simp
  then have "(c mod 2 ^ 32) div 2 ^ 23 \<le> (2 ^ 32 - 1) div 2 ^ 23"
    by (rule zdiv_mono1) simp
  then have sb: "0 \<le> (c mod 2 ^ 32) div 2 ^ 23" "(c mod 2 ^ 32) div 2 ^ 23 < 2 ^ 31"
    by (simp_all add: pos_imp_zdiv_nonneg_iff)
  have n: "js_and (js_shr c 23) 1 = (c mod 2 ^ 32) div 2 ^ 23 mod 2"
    unfolding s using sb by (rule js_and_one)
  have sh: "js_shr m (8 * (3 - e)) = m div 2 ^ nat (8 * (3 - e))" if "e \<le> 3"
  proof -
    have "m mod 2 ^ 32 = m" using mb by (simp add: mod_pos_pos_trivial)
    moreover have "0 \<le> 8 * (3 - e)" "8 * (3 - e) < 32" using that e0 by simp_all
    ultimately show ?thesis by (simp add: js_shr_eq)
  qed
  show ?thesis
    unfolding fromCompact_def e m n Let_def e_def[symmetric] m_def[symmetric]
    using sh by (simp add: push_bit_eq_mult)
qed

lemma byteLengthNat_bounds:
  "0 < n \<Longrightarrow> 256 ^ (byteLengthNat n - 1) \<le> n \<and> n < 256 ^ byteLengthNat n"
proof (induction n rule: byteLengthNat.induct)
  case (1 n)
  show ?case
  proof (cases "n div 256 = 0")
    case True
    then have "n < 256" by (simp add: div_eq_0_iff)
    moreover have "byteLengthNat n = 1"
      using True 1(2) by (simp add: byteLengthNat.simps[of n] byteLengthNat.simps[of 0])
    ultimately show ?thesis using 1(2) by simp
  next
    case False
    then have pos: "0 < n div 256" by simp
    from 1(1)[OF _ pos] 1(2)
    have ih: "256 ^ (byteLengthNat (n div 256) - 1) \<le> n div 256"
             "n div 256 < 256 ^ byteLengthNat (n div 256)" by auto
    have bl: "byteLengthNat n = Suc (byteLengthNat (n div 256))"
      using 1(2) by (simp add: byteLengthNat.simps[of n])
    have bp: "0 < byteLengthNat (n div 256)"
      using pos by (simp add: byteLengthNat.simps[of "n div 256"])
    have "256 ^ byteLengthNat (n div 256) = 256 * 256 ^ (byteLengthNat (n div 256) - 1)"
      using bp by (cases "byteLengthNat (n div 256)") simp_all
    also have "\<dots> \<le> 256 * (n div 256)" using ih(1) by simp
    also have "\<dots> \<le> n" by simp
    finally have lo: "256 ^ byteLengthNat (n div 256) \<le> n" .
    have "n < 256 * (n div 256 + 1)" 
      using div_mult_mod_eq[of n 256] by (simp add: algebra_simps)
    also have "\<dots> \<le> 256 * 256 ^ byteLengthNat (n div 256)"
      using ih(2) by simp
    finally have hi: "n < 256 ^ Suc (byteLengthNat (n div 256))" by simp
    show ?thesis using lo hi bl by simp
  qed
qed

lemma byteLengthNat_unique:
  assumes "256 ^ k \<le> n" "n < 256 ^ Suc k"
  shows "byteLengthNat n = Suc k"
proof -
  have pos: "0 < n" using assms(1) by (metis less_le_trans zero_less_numeral zero_less_power)
  from byteLengthNat_bounds[OF pos]
  have b: "256 ^ (byteLengthNat n - 1) \<le> n" "n < 256 ^ byteLengthNat n" by auto
  have "(256::nat) ^ k < 256 ^ byteLengthNat n"
    using assms(1) b(2) by (rule le_less_trans)
  then have 1: "k < byteLengthNat n"
    by (rule power_less_imp_less_exp[rotated]) simp
  have "(256::nat) ^ (byteLengthNat n - 1) < 256 ^ Suc k"
    using b(1) assms(2) by (rule le_less_trans)
  then have 2: "byteLengthNat n - 1 < Suc k"
    by (rule power_less_imp_less_exp[rotated]) simp
  show ?thesis using 1 2 by simp
qed


lemma int_div_less:
  fixes t d c :: int
  assumes "0 < d" "t < c * d"
  shows "t div d < c"
proof (rule ccontr)
  assume "\<not> t div d < c"
  then have "c * d \<le> (t div d) * d"
    using assms(1) by (simp add: mult_right_mono)
  moreover have "(t div d) * d + t mod d = t" by simp
  moreover have "0 \<le> t mod d" using assms(1) by simp
  ultimately show False using assms(2) by linarith
qed

lemma js_pack:
  assumes "0 \<le> e" "e < 256" "0 \<le> m" "m < 2 ^ 24"
  shows "js_shr (js_or (js_shl e 24) m) 0 = e * 2 ^ 24 + m"
proof -
  have e: "toInt32 e = e" using assms by (simp add: toInt32_id)
  have m: "toInt32 m = m" using assms by (simp add: toInt32_id)
  have tm: "take_bit 24 m = m" using assms by (simp add: take_bit_int_eq_self)
  have "push_bit 24 e < 2 ^ 32" using assms by (simp add: push_bit_eq_mult)
  moreover have "0 \<le> push_bit 24 e" using assms by simp
  ultimately have tp: "take_bit 32 (push_bit 24 e) = push_bit 24 e"
    by (simp add: take_bit_int_eq_self)
  have m32: "take_bit 32 m = m" using assms by (simp add: take_bit_int_eq_self)
  have "js_shr (js_or (js_shl e 24) m) 0 =
        take_bit 32 (signed_take_bit 31 (signed_take_bit 31 (push_bit 24 e)) OR m)"
    by (simp add: js_shr_def js_or_def js_shl_def toUint32_def e m) (simp add: toInt32_def)
  also have "\<dots> = push_bit 24 e OR m"
    by (simp add: take_bit_signed_take_bit tp m32)
  also have "\<dots> = concat_bit 24 m e"
    by (simp add: concat_bit_def tm or.commute)
  also have "\<dots> = m + push_bit 24 e"
    by (simp add: concat_bit_eq tm)
  finally show ?thesis by (simp add: push_bit_eq_mult)
qed

lemma toCompact_pos:
  fixes t :: int and b :: nat
  assumes "0 < t" and "b = byteLengthNat (nat t)" and "b \<le> 255"
  defines "mant \<equiv> (if b \<le> 3 then t * 256 ^ (3 - b) else t div 256 ^ (b - 3))"
  assumes cb: "2 ^ 23 \<le> mant \<Longrightarrow> b \<le> 254"
  shows "toCompact t =
           (if 2 ^ 23 \<le> mant then (int b + 1) * 2 ^ 24 + mant div 256
            else int b * 2 ^ 24 + mant)"
    and "0 \<le> mant" and "mant < 2 ^ 24"
proof -
  have tp: "0 < nat t" using assms(1) by simp
  from byteLengthNat_bounds[OF tp] assms(2)
  have nb: "256 ^ (b - 1) \<le> nat t" "nat t < 256 ^ b" by simp_all
  have bpos: "0 < b" using nb(2) tp by (cases b) simp_all
  have tb: "t < 256 ^ b" using nb(2) assms(1) by (simp add: nat_less_iff)
  show m0: "0 \<le> mant" using assms(1) by (simp add: mant_def pos_imp_zdiv_nonneg_iff)
  show m24: "mant < 2 ^ 24"
  proof (cases "b \<le> 3")
    case True
    have "t * 256 ^ (3 - b) < 256 ^ b * 256 ^ (3 - b)"
      using tb by (simp add: mult_strict_right_mono)
    also have "\<dots> = 256 ^ 3" using True by (simp flip: power_add)
    finally show ?thesis using True by (simp add: mant_def)
  next
    case False
    have "b = 3 + (b - 3)" using False by simp
    then have "(256::int) ^ b = 256 ^ 3 * 256 ^ (b - 3)"
      by (metis power_add)
    then have "t < 256 ^ 3 * 256 ^ (b - 3)"
      using tb by simp
    then have "t div 256 ^ (b - 3) < 256 ^ 3"
      by (intro int_div_less) simp_all
    then show ?thesis using False by (simp add: mant_def)
  qed
  have bl: "byteLength t = int b" using assms(1,2) by (simp add: byteLength_def)
  have mant1: "(if byteLength t \<le> 3 then js_shl t (8 * (3 - byteLength t))
                else sgn t * drop_bit (nat (8 * (byteLength t - 3))) \<bar>t\<bar>) = mant"
  proof (cases "b \<le> 3")
    case True
    have t24: "t < 2 ^ 24"
    proof -
      have "(256::int) ^ b \<le> 256 ^ 3" using True by (intro power_increasing) simp_all
      then show ?thesis using tb by simp
    qed
    have ti: "toInt32 t = t" using assms(1) t24 by (simp add: toInt32_id)
    have k: "nat (8 * (3 - int b) mod 32) = 8 * (3 - b)"
      using True bpos by (simp add: mod_pos_pos_trivial nat_diff_distrib' nat_mult_distrib)
    have pw: "(2::int) ^ (8 * (3 - b)) = 256 ^ (3 - b)"
      by (simp add: power_mult)
    have mi: "toInt32 mant = mant" using m0 m24 by (simp add: toInt32_id)
    have "js_shl t (8 * (3 - int b)) = toInt32 (push_bit (8 * (3 - b)) t)"
      unfolding js_shl_def by (simp only: k ti)
    also have "\<dots> = toInt32 mant"
      using True by (simp only: push_bit_eq_mult pw mant_def if_True)
    finally have "js_shl t (8 * (3 - int b)) = mant"
      by (simp only: mi)
    then show ?thesis
      using True by (simp only: bl) simp
  next
    case False
    have k: "nat (8 * (int b - 3)) = 8 * (b - 3)"
      using False by (simp add: nat_diff_distrib' nat_mult_distrib)
    have pw: "(2::int) ^ (8 * (b - 3)) = 256 ^ (b - 3)"
      by (simp add: power_mult)
    have "sgn t * drop_bit (nat (8 * (int b - 3))) \<bar>t\<bar> = t div 256 ^ (b - 3)"
      using assms(1) by (simp only: k drop_bit_eq_div pw) simp
    then show ?thesis
      using False by (simp only: bl mant_def) simp
  qed
  have carry: "(js_and mant 0x800000 \<noteq> 0) = (2 ^ 23 \<le> mant)"
    using m0 m24 by (rule bit23_iff)
  have sar: "js_sar mant 8 = mant div 256"
    using m0 m24 by (simp add: js_sar_def toInt32_id drop_bit_eq_div)
  have d0: "0 \<le> mant div 256" "mant div 256 < 2 ^ 24"
    using m0 m24 by (simp_all add: pos_imp_zdiv_nonneg_iff) 
  have p1: "js_shr (js_or (js_shl (int b + 1) 24) (mant div 256)) 0 = (int b + 1) * 2 ^ 24 + mant div 256"
    if "2 ^ 23 \<le> mant"
    using cb[OF that] d0 by (intro js_pack) simp_all
  have p2: "js_shr (js_or (js_shl (int b) 24) mant) 0 = int b * 2 ^ 24 + mant"
    using assms(3) m0 m24 by (intro js_pack) simp_all
  show "toCompact t =
           (if 2 ^ 23 \<le> mant then (int b + 1) * 2 ^ 24 + mant div 256
            else int b * 2 ^ 24 + mant)"
    unfolding toCompact_def Let_def mant1 carry using assms(1) p1 p2 sar
    by (simp add: bl)
qed


lemma fromCompact_pack:
  fixes E M :: int
  assumes "0 \<le> E" "E < 256" "0 \<le> M" "M < 2 ^ 23"
  shows "fromCompact (E * 2 ^ 24 + M) =
           (if E \<le> 3 then M div 2 ^ nat (8 * (3 - E)) else M * 2 ^ nat (8 * (E - 3)))"
proof (cases "E * 2 ^ 24 + M = 0")
  case True
  then have "E = 0" "M = 0" using assms by auto
  then show ?thesis by (simp add: fromCompact_def)
next
  case False
  define c where "c = E * 2 ^ 24 + M"
  have c0: "0 \<le> c" using assms by (simp add: c_def)
  have "E * 2 ^ 24 \<le> 255 * 2 ^ 24" using assms by simp
  then have c32: "c < 2 ^ 32" using assms by (simp add: c_def)
  have m32: "c mod 2 ^ 32 = c" using c0 c32 by (simp add: mod_pos_pos_trivial)
  have e: "c div 2 ^ 24 = E"
    using assms by (intro int_div_pos_eq[where r=M]) (simp_all add: c_def)
  have "c = 2 ^ 23 * (2 * E) + M" by (simp add: c_def)
  then have s: "c div 2 ^ 23 = 2 * E" and m: "c mod 2 ^ 23 = M"
    using assms by (auto intro: int_div_pos_eq int_mod_pos_eq)
  have "fromCompact c =
          (if c = 0 then 0
           else if 2 * E mod 2 \<noteq> 0
             then - (if E \<le> 3 then M div 2 ^ nat (8 * (3 - E)) else M * 2 ^ nat (8 * (E - 3)))
             else (if E \<le> 3 then M div 2 ^ nat (8 * (3 - E)) else M * 2 ^ nat (8 * (E - 3))))"
    by (subst fromCompact_arith) (simp only: m32 e s m Let_def)
  then show ?thesis
    using False unfolding c_def[symmetric] by simp
qed

lemma byteLengthNat_shift:
  assumes "0 < m"
  shows "byteLengthNat (m * 256 ^ k) = byteLengthNat m + k"
proof -
  from byteLengthNat_bounds[OF assms]
  have b: "256 ^ (byteLengthNat m - 1) \<le> m" "m < 256 ^ byteLengthNat m" by auto
  have bp: "0 < byteLengthNat m" using assms by (simp add: byteLengthNat.simps[of m])
  have "256 ^ (byteLengthNat m - 1 + k) \<le> m * 256 ^ k"
    using b(1) by (simp add: power_add)
  moreover have "m * 256 ^ k < 256 ^ Suc (byteLengthNat m - 1 + k)"
    using b(2) bp by (simp add: power_add flip: power_Suc)
  ultimately have "byteLengthNat (m * 256 ^ k) = Suc (byteLengthNat m - 1 + k)"
    by (rule byteLengthNat_unique)
  then show ?thesis using bp by simp
qed


lemma pow8: "k = int n \<Longrightarrow> (2::int) ^ nat (8 * k) = 256 ^ n"
  by (simp add: nat_mult_distrib power_mult)

lemma roundtrip_core:
  fixes t :: int and b :: nat
  assumes tpos: "0 < t" and b: "b = byteLengthNat (nat t)" and b255: "b \<le> 255"
  defines "mant \<equiv> (if b \<le> 3 then t * 256 ^ (3 - b) else t div 256 ^ (b - 3))"
  assumes H1: "3 < b \<Longrightarrow> 256 ^ (b - 3) dvd t"
      and H2: "2 ^ 23 \<le> mant \<Longrightarrow> b \<le> 254 \<and> (3 \<le> b \<longrightarrow> 256 ^ (b - 2) dvd t)"
  shows "fromCompact (toCompact t) = t"
proof -
  have cb: "2 ^ 23 \<le> mant \<Longrightarrow> b \<le> 254" using H2 by simp
  note tp = toCompact_pos[OF tpos b b255, folded mant_def, OF cb]
  have m0: "0 \<le> mant" and m24: "mant < 2 ^ 24" using tp(2,3) by simp_all
  show ?thesis
  proof (cases "2 ^ 23 \<le> mant")
    case False
    then have tc: "toCompact t = int b * 2 ^ 24 + mant" using tp(1) by simp
    have fc: "fromCompact (int b * 2 ^ 24 + mant) =
              (if int b \<le> 3 then mant div 2 ^ nat (8 * (3 - int b))
               else mant * 2 ^ nat (8 * (int b - 3)))"
      using b255 m0 False by (intro fromCompact_pack) simp_all
    show ?thesis
    proof (cases "b \<le> 3")
      case True
      have "(2::int) ^ nat (8 * (3 - int b)) = 256 ^ (3 - b)"
        using True by (intro pow8) simp
      then show ?thesis unfolding tc fc using True by (simp add: mant_def)
    next
      case F: False
      have "(2::int) ^ nat (8 * (int b - 3)) = 256 ^ (b - 3)"
        using F by (intro pow8) simp
      moreover have "t div 256 ^ (b - 3) * 256 ^ (b - 3) = t"
        using H1 F by (simp add: dvd_div_mult_self)
      ultimately show ?thesis unfolding tc fc using F by (simp add: mant_def)
    qed
  next
    case True
    then have tc: "toCompact t = (int b + 1) * 2 ^ 24 + mant div 256" using tp(1) by simp
    have b254: "b \<le> 254" and dv: "3 \<le> b \<Longrightarrow> 256 ^ (b - 2) dvd t"
      using H2[OF True] by simp_all
    have "mant div 256 < 2 ^ 16"
      using m24 by (intro int_div_less) simp_all
    then have "mant div 256 < 2 ^ 23" by simp
    moreover have "0 \<le> mant div 256" using m0 by (simp add: pos_imp_zdiv_nonneg_iff)
    ultimately have fc: "fromCompact ((int b + 1) * 2 ^ 24 + mant div 256) =
              (if int b + 1 \<le> 3 then mant div 256 div 2 ^ nat (8 * (3 - (int b + 1)))
               else mant div 256 * 2 ^ nat (8 * (int b + 1 - 3)))"
      using b254 by (intro fromCompact_pack) simp_all
    show ?thesis
    proof (cases "b \<le> 2")
      case T: True
      have p: "(2::int) ^ nat (8 * (3 - (int b + 1))) = 256 ^ (2 - b)"
        using T by (intro pow8) simp
      have "3 - b = Suc (2 - b)" using T by simp
      then have "mant = t * 256 ^ (2 - b) * 256" using T by (simp add: mant_def)
      then have "mant div 256 = t * 256 ^ (2 - b)" by simp
      then show ?thesis unfolding tc fc using T p by simp
    next
      case F: False
      have p: "(2::int) ^ nat (8 * (int b + 1 - 3)) = 256 ^ (b - 2)"
        using F by (intro pow8) simp
      have "mant div 256 = t div 256 ^ (b - 2)"
      proof (cases "b = 3")
        case True
        then show ?thesis by (simp add: mant_def)
      next
        case False
        then have "b - 2 = Suc (b - 3)" using F by simp
        then have "t div 256 ^ (b - 2) = t div (256 ^ (b - 3) * 256)"
          by (simp add: mult.commute)
        also have "\<dots> = t div 256 ^ (b - 3) div 256"
          by (rule zdiv_zmult2_eq) simp
        finally show ?thesis using False F by (simp add: mant_def)
      qed
      moreover have "t div 256 ^ (b - 2) * 256 ^ (b - 2) = t"
        using dv F by (simp add: dvd_div_mult_self)
      ultimately show ?thesis unfolding tc fc using F p by simp
    qed
  qed
qed


lemma byteLengthNat_le:
  assumes "n < 256 ^ k"
  shows "byteLengthNat n \<le> k"
proof (cases "n = 0")
  case True
  then show ?thesis by (simp add: byteLengthNat.simps[of 0])
next
  case False
  then have "0 < n" by simp
  from byteLengthNat_bounds[OF this] have "256 ^ (byteLengthNat n - 1) \<le> n" by simp
  then have "(256::nat) ^ (byteLengthNat n - 1) < 256 ^ k"
    using assms by (rule le_less_trans)
  then have "byteLengthNat n - 1 < k"
    by (rule power_less_imp_less_exp[rotated]) simp
  then show ?thesis by simp
qed

lemma compact_roundtrip_aux:
  assumes pos: "0 < fromCompact c"
  shows "fromCompact (toCompact (fromCompact c)) = fromCompact c"
proof -
  define e where "e = (c mod 2 ^ 32) div 2 ^ 24"
  define m where "m = c mod 2 ^ 23"
  define num where "num = (if e \<le> 3 then m div 2 ^ nat (8 * (3 - e)) else m * 2 ^ nat (8 * (e - 3)))"
  define t where "t = fromCompact c"
  define b where "b = byteLengthNat (nat t)"
  have mb: "0 \<le> m" "m < 2 ^ 23" by (simp_all add: m_def)
  have e0: "0 \<le> e" by (simp add: e_def pos_imp_zdiv_nonneg_iff)
  have "c mod 2 ^ 32 < 256 * 2 ^ 24" by simp
  then have e256: "e < 256" unfolding e_def by (intro int_div_less) simp_all
  have num0: "0 \<le> num" using mb by (simp add: num_def pos_imp_zdiv_nonneg_iff)
  have "t = (if c = 0 then 0 else if (c mod 2 ^ 32) div 2 ^ 23 mod 2 \<noteq> 0 then - num else num)"
    unfolding t_def num_def e_def m_def by (subst fromCompact_arith) (simp only: Let_def)
  then have tn: "t = num" using pos num0 unfolding t_def[symmetric] by (auto split: if_splits)
  have tpos: "0 < t" using pos by (simp add: t_def)
  have "fromCompact (toCompact t) = t"
  proof (cases "e \<le> 3")
    case True
    have "m div 2 ^ nat (8 * (3 - e)) \<le> m div 1"
      using mb(1) by (intro zdiv_mono2) simp_all
    then have "m div 2 ^ nat (8 * (3 - e)) \<le> m" by simp
    then have t23: "t < 2 ^ 23" using True mb(2) by (simp add: tn num_def)
    then have "nat t < 256 ^ 3" using tpos by simp
    then have b3: "b \<le> 3" unfolding b_def by (rule byteLengthNat_le)
    show ?thesis
    proof (rule roundtrip_core[OF tpos b_def])
      show "b \<le> 255" using b3 by simp
      show "256 ^ (b - 3) dvd t" if "3 < b" using that b3 by simp
      show "b \<le> 254 \<and> (3 \<le> b \<longrightarrow> 256 ^ (b - 2) dvd t)"
        if "2 ^ 23 \<le> (if b \<le> 3 then t * 256 ^ (3 - b) else t div 256 ^ (b - 3))"
      proof -
        have "b \<noteq> 3" using that t23 by auto
        then show ?thesis using b3 by simp
      qed
    qed
  next
    case False
    define k where "k = nat (e - 3)"
    define M where "M = nat m"
    have k1: "1 \<le> k" "k \<le> 252" using False e256 by (simp_all add: k_def)
    have "(2::int) ^ nat (8 * (e - 3)) = 256 ^ k"
      using False by (intro pow8) (simp add: k_def)
    then have tm: "t = m * 256 ^ k" using False by (simp add: tn num_def)
    then have mpos: "0 < m" using tpos mb(1) by (cases "m = 0") simp_all
    have Mpos: "0 < M" using mpos by (simp add: M_def)
    have "nat t = M * 256 ^ k"
      using mb(1) by (simp add: tm M_def nat_mult_distrib nat_power_eq)
    then have bk: "b = byteLengthNat M + k"
      unfolding b_def using Mpos by (simp add: byteLengthNat_shift)
    have "M < 256 ^ 3" using mb by (simp add: M_def)
    then have bM3: "byteLengthNat M \<le> 3" by (rule byteLengthNat_le)
    have dvdt: "256 ^ j dvd t" if "j \<le> k" for j
    proof -
      have "(256::int) ^ j dvd 256 ^ k" using that by (rule le_imp_power_dvd)
      then show ?thesis unfolding tm by (rule dvd_mult)
    qed
    show ?thesis
    proof (rule roundtrip_core[OF tpos b_def])
      show "b \<le> 255" using bk bM3 k1 by simp
      show "256 ^ (b - 3) dvd t" if "3 < b"
        using bk bM3 by (intro dvdt) simp
      show "b \<le> 254 \<and> (3 \<le> b \<longrightarrow> 256 ^ (b - 2) dvd t)"
        if c: "2 ^ 23 \<le> (if b \<le> 3 then t * 256 ^ (3 - b) else t div 256 ^ (b - 3))"
      proof -
        have "byteLengthNat M \<noteq> 3"
        proof
          assume a: "byteLengthNat M = 3"
          then have "b - 3 = k" "\<not> b \<le> 3" using bk k1 by simp_all
          then have "2 ^ 23 \<le> m" using c by (simp add: tm)
          then show False using mb(2) by simp
        qed
        then have "byteLengthNat M \<le> 2" using bM3 by simp
        then have "b \<le> 254" "b - 2 \<le> k" using bk k1 by simp_all
        then show ?thesis using dvdt by simp
      qed
    qed
  qed
  then show ?thesis by (simp add: t_def)
qed


text \<open>
  Claim C3. Every positive target that is the value of \<open>fromCompact\<close> at some compact
  \<open>c\<close> is returned unchanged by \<open>toCompact\<close> followed by \<open>fromCompact\<close>.
\<close>

theorem compact_roundtrip:
  assumes "t = fromCompact c" and "0 < t"
  shows "fromCompact (toCompact t) = t"
  using assms compact_roundtrip_aux[of c] by simp

theorem compact_roundtrip_witness:
  "fromCompact 0x1d00ffff = 0xffff * 256 ^ 26
   \<and> fromCompact (toCompact (0xffff * 256 ^ 26)) = 0xffff * 256 ^ 26"
proof -
  have f: "0xffff * 256 ^ 26 = fromCompact 0x1d00ffff"
    by (simp add: fromCompact_def js_shr_def js_and_def toInt32_def toUint32_def)
  have p: "(0::int) < 0xffff * 256 ^ 26" by simp
  show ?thesis using compact_roundtrip[OF f p] f by simp
qed

section \<open>Contextual input checks: properties\<close>

lemma loop_no_error: "checkInputs_loop view height tot ins \<noteq> Inl e"
  by (induction ins arbitrary: tot)
     (auto simp: getEntry_def getOutput_def Let_def split: option.splits)

lemma loop_early_fails: "checkInputs_loop view height tot ins = Inr (Inl v) \<Longrightarrow> fst v = - 1"
  by (induction ins arbitrary: tot)
     (auto simp: getEntry_def getOutput_def Let_def split: option.splits if_splits)

lemma loop_total:
  "checkInputs_loop view height tot ins = Inr (Inr tot') \<Longrightarrow>
     (\<forall>i\<in>set ins. passes view height i) \<and> tot' = tot + sum_list (map (valueOf view) ins)
     \<and> (ins \<noteq> [] \<longrightarrow> tot' \<le> MAX_MONEY)"
proof (induction ins arbitrary: tot)
  case Nil
  then show ?case by simp
next
  case (Cons i rest)
  from Cons.prems obtain entry where
    e: "view (prevout i) = Some entry" and
    np: "\<not> premature height entry" and
    v: "0 \<le> coinValue entry" "coinValue entry \<le> MAX_MONEY" and
    t: "\<not> (tot + coinValue entry < 0 \<or> tot + coinValue entry > MAX_MONEY)" and
    r: "checkInputs_loop view height (tot + coinValue entry) rest = Inr (Inr tot')"
    by (auto simp: getEntry_def getOutput_def Let_def premature_def coinValue_def
             split: option.splits if_splits)
  from Cons.IH[OF r] have ih: "\<forall>i\<in>set rest. passes view height i"
    "tot' = tot + coinValue entry + sum_list (map (valueOf view) rest)"
    "rest \<noteq> [] \<longrightarrow> tot' \<le> MAX_MONEY" by auto
  have "passes view height i" using e np v by (simp add: passes_def)
  moreover have "valueOf view i = coinValue entry" using e by (simp add: valueOf_def)
  moreover have "tot' \<le> MAX_MONEY" using ih(2,3) t by (cases rest) auto
  ultimately show ?case using ih by simp
qed

lemma loop_prefix:
  assumes "\<forall>j\<in>set pre. passes view height j"
      and "0 \<le> tot" and "tot + sum_list (map (valueOf view) pre) \<le> MAX_MONEY"
  shows "checkInputs_loop view height tot (pre @ rest) =
         checkInputs_loop view height (tot + sum_list (map (valueOf view) pre)) rest"
  using assms
proof (induction pre arbitrary: tot)
  case Nil
  then show ?case by simp
next
  case (Cons j pre)
  from Cons.prems(1) obtain entry where
    e: "view (prevout j) = Some entry" and
    np: "\<not> premature height entry" and
    v: "0 \<le> coinValue entry" "coinValue entry \<le> MAX_MONEY"
    by (auto simp: passes_def split: option.splits)
  have vj: "valueOf view j = coinValue entry" using e by (simp add: valueOf_def)
  have nn: "0 \<le> sum_list (map (valueOf view) pre)"
  proof (rule sum_list_nonneg)
    fix x assume "x \<in> set (map (valueOf view) pre)"
    then obtain k where "k \<in> set pre" "x = valueOf view k" by auto
    then show "0 \<le> x" using Cons.prems(1)
      by (auto simp: passes_def valueOf_def split: option.splits)
  qed
  have t: "0 \<le> tot + coinValue entry" "tot + coinValue entry \<le> MAX_MONEY"
    using Cons.prems(2,3) v nn vj by simp_all
  have step: "checkInputs_loop view height tot ((j # pre) @ rest) =
        checkInputs_loop view height (tot + coinValue entry) (pre @ rest)"
    using e np v t
    by (auto simp: getEntry_def getOutput_def Let_def premature_def coinValue_def)
  have "checkInputs_loop view height (tot + coinValue entry) (pre @ rest) =
        checkInputs_loop view height (tot + coinValue entry + sum_list (map (valueOf view) pre)) rest"
    using Cons.prems t vj by (intro Cons.IH) simp_all
  then show ?case using step vj by (simp add: add.assoc)
qed

lemma loop_fails_if_not_passes:
  assumes "i \<in> set ins" "\<not> passes view height i"
  shows "\<exists>v. checkInputs_loop view height tot ins = Inr (Inl v)"
proof (cases "checkInputs_loop view height tot ins")
  case (Inl e)
  then show ?thesis using loop_no_error by blast
next
  case (Inr r)
  show ?thesis
  proof (cases r)
    case (Inl v)
    then show ?thesis using Inr by blast
  next
    case r2: (Inr tot')
    have "checkInputs_loop view height tot ins = Inr (Inr tot')"
      using Inr r2 by simp
    from loop_total[OF this] assms show ?thesis by blast
  qed
qed

lemma checkInputs_early:
  assumes "checkInputs_loop view height 0 (inputs t) = Inr (Inl v)"
  shows "checkInputs view height t = Inr (- 1, fst (snd v), snd (snd v))"
  using assms loop_early_fails[OF assms] by (cases v) (simp add: checkInputs_def)

lemma getInputValue_loop_eq:
  "\<forall>i\<in>set ins. view (prevout i) \<noteq> None \<Longrightarrow>
     getInputValue_loop view tot ins = tot + sum_list (map (valueOf view) ins)"
  by (induction ins arbitrary: tot)
     (auto simp: getOutput_def valueOf_def coinValue_def split: option.splits)

lemma passes_resolved: "passes view height i \<Longrightarrow> view (prevout i) \<noteq> None"
  by (auto simp: passes_def split: option.splits)

lemma checkInputs_fails_below:
  assumes "\<forall>i\<in>set (inputs t). view (prevout i) \<noteq> None"
      and "getInputValue view t < getOutputValue t"
  shows "\<exists>reason score. checkInputs view height t = Inr (- 1, reason, score)"
proof (cases "checkInputs_loop view height 0 (inputs t)")
  case (Inl e)
  then show ?thesis using loop_no_error by blast
next
  case (Inr r)
  show ?thesis
  proof (cases r)
    case (Inl v)
    then show ?thesis using checkInputs_early[of view height t v] Inr by blast
  next
    case (Inr tot')
    with \<open>checkInputs_loop view height 0 (inputs t) = Inr r\<close>
    have l: "checkInputs_loop view height 0 (inputs t) = Inr (Inr tot')" by simp
    from loop_total[OF l] have "tot' = sum_list (map (valueOf view) (inputs t))" by simp
    then have "tot' = getInputValue view t"
      using assms(1) by (simp add: getInputValue_def getInputValue_loop_eq)
    then show ?thesis using assms(2) l by (simp add: checkInputs_def)
  qed
qed

lemma checkInputs_success:
  assumes "checkInputs view height t = Inr (fee, reason, score)" and "fee \<noteq> - 1"
  shows "fee = getInputValue view t - getOutputValue t \<and> 0 \<le> fee \<and> fee \<le> MAX_MONEY
         \<and> reason = ''valid'' \<and> score = 0 \<and> (\<forall>i\<in>set (inputs t). passes view height i)"
proof (cases "checkInputs_loop view height 0 (inputs t)")
  case (Inl e)
  then show ?thesis using loop_no_error by blast
next
  case (Inr r)
  show ?thesis
  proof (cases r)
    case (Inl v)
    then show ?thesis using checkInputs_early[of view height t v] Inr assms by simp
  next
    case (Inr tot')
    with \<open>checkInputs_loop view height 0 (inputs t) = Inr r\<close>
    have l: "checkInputs_loop view height 0 (inputs t) = Inr (Inr tot')" by simp
    from loop_total[OF l] have p: "\<forall>i\<in>set (inputs t). passes view height i"
      and "tot' = sum_list (map (valueOf view) (inputs t))" by simp_all
    moreover have "\<forall>i\<in>set (inputs t). view (prevout i) \<noteq> None"
      using p passes_resolved by blast
    ultimately have "tot' = getInputValue view t"
      by (simp add: getInputValue_def getInputValue_loop_eq)
    then show ?thesis using assms l p
      by (auto simp: checkInputs_def Let_def split: if_splits)
  qed
qed


text \<open>
  Claim C4 (as amended). The inputs are checked in order and the first failure decides
  the reason. (1) A premature coinbase spend among the inputs makes the check fail;
  (2) the reason is \<open>bad-txns-premature-spend-of-coinbase\<close> when every earlier input
  passes its own checks; (3) the check fails when the inputs are worth less than the
  outputs and (4) when a coin spent has a value outside \<open>[0, MAX_MONEY]\<close>; (5) on
  success the fee is the input value minus the output value and lies in
  \<open>[0, MAX_MONEY]\<close>.
\<close>

theorem checkInputs_contextual:
  "(i \<in> set (inputs t) \<longrightarrow> view (prevout i) = Some e \<longrightarrow> premature height e \<longrightarrow>
      (\<exists>reason score. checkInputs view height t = Inr (- 1, reason, score)))
   \<and> (inputs t = pre @ i # post \<longrightarrow> (\<forall>j\<in>set pre. passes view height j) \<longrightarrow>
        sum_list (map (valueOf view) pre) \<le> MAX_MONEY \<longrightarrow>
        view (prevout i) = Some e \<longrightarrow> premature height e \<longrightarrow>
        checkInputs view height t = Inr (- 1, ''bad-txns-premature-spend-of-coinbase'', 0))
   \<and> ((\<forall>j\<in>set (inputs t). view (prevout j) \<noteq> None) \<longrightarrow>
        getInputValue view t < getOutputValue t \<longrightarrow>
        (\<exists>reason score. checkInputs view height t = Inr (- 1, reason, score)))
   \<and> (i \<in> set (inputs t) \<longrightarrow> view (prevout i) = Some e \<longrightarrow>
        (coinValue e < 0 \<or> MAX_MONEY < coinValue e) \<longrightarrow>
        (\<exists>reason score. checkInputs view height t = Inr (- 1, reason, score)))
   \<and> (checkInputs view height t = Inr (fee, reason', score') \<longrightarrow> fee \<noteq> - 1 \<longrightarrow>
        fee = getInputValue view t - getOutputValue t \<and> 0 \<le> fee \<and> fee \<le> MAX_MONEY)"
proof -
  have fails: "\<exists>reason score. checkInputs view height t = Inr (- 1, reason, score)"
    if "i \<in> set (inputs t)" "\<not> passes view height i"
  proof -
    from loop_fails_if_not_passes[OF that] obtain v where
      "checkInputs_loop view height 0 (inputs t) = Inr (Inl v)" by blast
    then show ?thesis using checkInputs_early by blast
  qed
  have c1: "\<exists>reason score. checkInputs view height t = Inr (- 1, reason, score)"
    if "i \<in> set (inputs t)" "view (prevout i) = Some e" "premature height e"
    using that by (intro fails) (simp_all add: passes_def)
  have c2: "checkInputs view height t = Inr (- 1, ''bad-txns-premature-spend-of-coinbase'', 0)"
    if "inputs t = pre @ i # post" "\<forall>j\<in>set pre. passes view height j"
       "sum_list (map (valueOf view) pre) \<le> MAX_MONEY"
       "view (prevout i) = Some e" "premature height e"
  proof -
    have "checkInputs_loop view height 0 (pre @ i # post) =
          checkInputs_loop view height (0 + sum_list (map (valueOf view) pre)) (i # post)"
      using that(2,3) by (intro loop_prefix) simp_all
    also have "\<dots> = Inr (Inl (- 1, ''bad-txns-premature-spend-of-coinbase'', 0))"
      using that(4,5) by (simp add: getEntry_def premature_def)
    finally show ?thesis using that(1) by (simp add: checkInputs_def)
  qed
  have c4: "\<exists>reason score. checkInputs view height t = Inr (- 1, reason, score)"
    if "i \<in> set (inputs t)" "view (prevout i) = Some e" "coinValue e < 0 \<or> MAX_MONEY < coinValue e"
    using that by (intro fails) (auto simp: passes_def)
  show ?thesis
    using c1 c2 c4 checkInputs_fails_below[of t view height]
      checkInputs_success[of view height t fee reason' score']
    by blast
qed

theorem checkInputs_contextual_witness:
  "checkInputs sampleView 150 (sampleTx [spend opA, spend opB] [pay 6000])
     = Inr (- 1, ''bad-txns-premature-spend-of-coinbase'', 0)
   \<and> getInputValue sampleView (sampleTx [spend opA] [pay 6000])
       < getOutputValue (sampleTx [spend opA] [pay 6000])
   \<and> (\<exists>reason score. checkInputs sampleView 200 (sampleTx [spend opA] [pay 6000])
       = Inr (- 1, reason, score))
   \<and> coinValue entryD < 0
   \<and> (\<exists>reason score. checkInputs sampleView 200 (sampleTx [spend opA, spend opD] [pay 6000])
       = Inr (- 1, reason, score))
   \<and> getInputValue sampleView (sampleTx [spend opA, spend opB] [pay 6000])
      - getOutputValue (sampleTx [spend opA, spend opB] [pay 6000]) = 6000"
proof -
  let ?t = "sampleTx [spend opA, spend opB] [pay 6000]"
  let ?u = "sampleTx [spend opA] [pay 6000]"
  let ?w = "sampleTx [spend opA, spend opD] [pay 6000]"
  have v: "sampleView (prevout (spend opA)) = Some entryA"
          "sampleView (prevout (spend opB)) = Some entryB"
          "sampleView (prevout (spend opD)) = Some entryD"
    by (simp_all add: sampleView_def spend_def opA_def opB_def opD_def)
  have h1: "inputs ?t = [spend opA] @ spend opB # []"
    by (simp add: sampleTx_def)
  have h2: "\<forall>j\<in>set [spend opA]. passes sampleView 150 j"
    by (simp add: passes_def v premature_def coinValue_def entryA_def MAX_MONEY_def COIN_def)
  have h3: "sum_list (map (valueOf sampleView) [spend opA]) \<le> MAX_MONEY"
    by (simp add: valueOf_def v coinValue_def entryA_def MAX_MONEY_def COIN_def)
  have h4: "premature 150 entryB"
    by (simp add: premature_def entryB_def COINBASE_MATURITY_def)
  have ok: "checkInputs sampleView 200 ?t = Inr (6000, ''valid'', 0)"
    by (simp add: checkInputs_def sampleTx_def getEntry_def getOutput_def v entryA_def entryB_def
        COINBASE_MATURITY_def MAX_MONEY_def COIN_def getOutputValue_def pay_def)
  have u1: "\<forall>j\<in>set (inputs ?u). sampleView (prevout j) \<noteq> None"
    by (simp add: sampleTx_def v)
  have u2: "getInputValue sampleView ?u < getOutputValue ?u"
    by (simp add: getInputValue_def getOutputValue_def sampleTx_def getOutput_def v entryA_def
        pay_def)
  have w1: "spend opD \<in> set (inputs ?w)"
    by (simp add: sampleTx_def)
  have w2: "coinValue entryD < 0"
    by (simp add: coinValue_def entryD_def)
  have "checkInputs sampleView 150 ?t = Inr (- 1, ''bad-txns-premature-spend-of-coinbase'', 0)"
    using checkInputs_contextual[of "spend opB" ?t sampleView entryB 150 "[spend opA]" "[]"]
      h1 h2 h3 h4 v(2) by blast
  moreover have "\<exists>reason score. checkInputs sampleView 200 ?u = Inr (- 1, reason, score)"
    using checkInputs_contextual[of "spend opA" ?u sampleView entryA 200 "[]" "[]"] u1 u2
    by blast
  moreover have "\<exists>reason score. checkInputs sampleView 200 ?w = Inr (- 1, reason, score)"
    using checkInputs_contextual[of "spend opD" ?w sampleView entryD 200 "[]" "[]"] w1 w2 v(3)
    by blast
  moreover have "6000 = getInputValue sampleView ?t - getOutputValue ?t"
    using checkInputs_contextual[of "spend opB" ?t sampleView entryB 200 "[spend opA]" "[]"
        6000 "''valid''" 0] ok by simp
  ultimately show ?thesis using u2 w2 by simp
qed

text \<open>
  The second input spends a premature coinbase coin, but the first input is missing
  from the view and decides the reason.
\<close>

theorem checkInputs_reason_counterexample:
  "sampleView (prevout (spend opB)) = Some entryB
   \<and> entry_coinbase entryB
   \<and> 150 - entry_height entryB < COINBASE_MATURITY
   \<and> checkInputs sampleView 150 (sampleTx [spend opC, spend opB] [pay 6000])
       = Inr (- 1, ''bad-txns-inputs-missingorspent'', 0)"
  by (simp add: checkInputs_def sampleTx_def getEntry_def sampleView_def spend_def
      opA_def opB_def opC_def opD_def entryB_def COINBASE_MATURITY_def)

section \<open>Transaction sanity: properties\<close>

lemma fold_add_acc:
  fixes f :: "'a \<Rightarrow> int"
  shows "fold (\<lambda>x b. b + f x) xs a = a + sum_list (map f xs)"
  by (induction xs arbitrary: a) simp_all

lemma sizeVarint_pos: "1 \<le> sizeVarint n"
  by (simp add: sizeVarint_def)

lemma input_getSize_nonneg: "0 \<le> input_getSize i"
  using sizeVarint_pos[of "length (script i)"] by (simp add: input_getSize_def sizeVarBytes_def)

lemma output_getSize_nonneg: "0 \<le> output_getSize out"
  using sizeVarint_pos[of "length (outScript out)"] by (simp add: output_getSize_def sizeVarBytes_def)

lemma serializedSize_eq:
  "serializedSize t =
     4 + sizeVarint (length (inputs t)) + sum_list (map input_getSize (inputs t))
     + sizeVarint (length (outputs t)) + sum_list (map output_getSize (outputs t)) + 4"
  by (simp add: serializedSize_def getNormalSizes_def Let_def fold_add_acc)

lemma serializedSize_min: "10 \<le> serializedSize t"
proof -
  have "0 \<le> sum_list (map input_getSize (inputs t))"
    by (rule sum_list_nonneg) (auto simp: input_getSize_nonneg)
  moreover have "0 \<le> sum_list (map output_getSize (outputs t))"
    by (rule sum_list_nonneg) (auto simp: output_getSize_nonneg)
  ultimately show ?thesis
    using sizeVarint_pos[of "length (inputs t)"] sizeVarint_pos[of "length (outputs t)"]
    by (simp add: serializedSize_eq)
qed

lemma getSize_ok:
  assumes "inputs t \<noteq> []"
  shows "getSize t = Inr (serializedSize t, if mutable t then t else t\<lparr>memo := True\<rparr>)"
proof -
  have "0 \<le> rawSize (getNormalSizes t)"
    using serializedSize_min[of t] by (simp add: serializedSize_def)
  then show ?thesis
    using assms
    by (cases "memo t")
       (simp_all add: getSize_def frame_def frameNormal_def writeNormal_def serializedSize_def)
qed


lemma take_sum_Suc:
  "sum_list (map outValue (take (Suc j) (out # rest))) = outValue out + sum_list (map outValue (take j rest))"
  by simp

lemma checkOutputs_loop_None:
  "checkOutputs_loop tot outs = None \<longleftrightarrow>
     (\<forall>out\<in>set outs. inRange (outValue out))
     \<and> (\<forall>k. 1 \<le> k \<and> k \<le> length outs \<longrightarrow> inRange (tot + sum_list (map outValue (take k outs))))"
proof (induction outs arbitrary: tot)
  case Nil
  show ?case by simp
next
  case (Cons out rest)
  let ?v = "outValue out"
  have run: "(\<forall>k. 1 \<le> k \<and> k \<le> length (out # rest) \<longrightarrow>
                inRange (tot + sum_list (map outValue (take k (out # rest)))))
             \<longleftrightarrow> inRange (tot + ?v) \<and>
                 (\<forall>j. 1 \<le> j \<and> j \<le> length rest \<longrightarrow>
                    inRange (tot + ?v + sum_list (map outValue (take j rest))))"
    (is "?L \<longleftrightarrow> ?R")
  proof
    assume l: ?L
    have "inRange (tot + ?v)" using l[rule_format, of 1] by simp
    moreover have "inRange (tot + ?v + sum_list (map outValue (take j rest)))"
      if "1 \<le> j \<and> j \<le> length rest" for j
      using l[rule_format, of "Suc j"] that by (simp add: add.assoc)
    ultimately show ?R by blast
  next
    assume r: ?R
    show ?L
    proof (intro allI impI)
      fix k assume k: "1 \<le> k \<and> k \<le> length (out # rest)"
      then obtain j where j: "k = Suc j" by (cases k) auto
      show "inRange (tot + sum_list (map outValue (take k (out # rest))))"
      proof (cases "j = 0")
        case True
        then show ?thesis using r j by simp
      next
        case False
        then have "1 \<le> j \<and> j \<le> length rest" using k j by simp
        then show ?thesis using r j by (simp add: add.assoc)
      qed
    qed
  qed
  show ?case
    unfolding run using Cons.IH[of "tot + ?v"]
    by (auto simp: Let_def inRange_def)
qed

lemma checkOutputs_loop_Some:
  "checkOutputs_loop tot outs = Some v \<Longrightarrow>
     fst v = False \<and> snd (snd v) = 100 \<and>
     (fst (snd v) = ''bad-txns-vout-negative'' \<and> (\<exists>out\<in>set outs. outValue out < 0)
      \<or> fst (snd v) = ''bad-txns-vout-toolarge'' \<and> (\<exists>out\<in>set outs. MAX_MONEY < outValue out)
      \<or> fst (snd v) = ''bad-txns-txouttotal-toolarge''
         \<and> (\<exists>k\<le>length outs. \<not> inRange (tot + sum_list (map outValue (take k outs)))))"
proof (induction outs arbitrary: tot)
  case Nil
  then show ?case by simp
next
  case (Cons out rest)
  let ?v = "outValue out"
  show ?case
  proof (cases "?v < 0 \<or> MAX_MONEY < ?v")
    case True
    then show ?thesis using Cons.prems by (auto split: if_splits)
  next
    case vr: False
    show ?thesis
    proof (cases "inRange (tot + ?v)")
      case False
      then have "\<not> inRange (tot + sum_list (map outValue (take 1 (out # rest))))" by simp
      moreover have "(1::nat) \<le> length (out # rest)" by simp
      ultimately have "\<exists>k\<le>length (out # rest).
           \<not> inRange (tot + sum_list (map outValue (take k (out # rest))))" by blast
      moreover have "v = (False, ''bad-txns-txouttotal-toolarge'', 100)"
        using Cons.prems vr False by (auto simp: Let_def inRange_def split: if_splits)
      ultimately show ?thesis by simp
    next
      case True
      then have "checkOutputs_loop (tot + ?v) rest = Some v"
        using Cons.prems vr by (auto simp: Let_def inRange_def split: if_splits)
      from Cons.IH[OF this]
      have ih: "fst v = False" "snd (snd v) = 100"
        "fst (snd v) = ''bad-txns-vout-negative'' \<and> (\<exists>out\<in>set rest. outValue out < 0)
      \<or> fst (snd v) = ''bad-txns-vout-toolarge'' \<and> (\<exists>out\<in>set rest. MAX_MONEY < outValue out)
      \<or> fst (snd v) = ''bad-txns-txouttotal-toolarge''
         \<and> (\<exists>k\<le>length rest. \<not> inRange (tot + ?v + sum_list (map outValue (take k rest))))"
        by auto
      have "\<exists>k\<le>length (out # rest). \<not> inRange (tot + sum_list (map outValue (take k (out # rest))))"
        if "\<exists>k\<le>length rest. \<not> inRange (tot + ?v + sum_list (map outValue (take k rest)))"
      proof -
        from that obtain k where k: "k \<le> length rest"
          "\<not> inRange (tot + ?v + sum_list (map outValue (take k rest)))" by blast
        have "Suc k \<le> length (out # rest)" using k(1) by simp
        moreover have "\<not> inRange (tot + sum_list (map outValue (take (Suc k) (out # rest))))"
          using k(2) by (simp add: add.assoc)
        ultimately show ?thesis by blast
      qed
      then show ?thesis using ih by auto
    qed
  qed
qed

lemma hasDuplicate_loop_iff:
  "hasDuplicate_loop seen ins \<longleftrightarrow>
     (\<exists>i\<in>set ins. toKey (prevout i) \<in> seen) \<or> \<not> distinct (map (\<lambda>i. toKey (prevout i)) ins)"
proof (induction ins arbitrary: seen)
  case Nil
  show ?case by simp
next
  case (Cons a ins)
  let ?key = "\<lambda>i. toKey (prevout i)"
  show ?case
  proof (cases "?key a \<in> seen")
    case True
    then show ?thesis by (simp add: Let_def)
  next
    case False
    have "hasDuplicate_loop seen (a # ins) = hasDuplicate_loop (insert (?key a) seen) ins"
      using False by (simp add: Let_def)
    also have "\<dots> = ((\<exists>i\<in>set ins. ?key i \<in> insert (?key a) seen) \<or> \<not> distinct (map ?key ins))"
      by (rule Cons.IH)
    also have "\<dots> = ((\<exists>i\<in>set ins. ?key i \<in> seen) \<or> (\<exists>i\<in>set ins. ?key i = ?key a)
                        \<or> \<not> distinct (map ?key ins))"
      by blast
    also have "(\<exists>i\<in>set ins. ?key i = ?key a) = (?key a \<in> set (map ?key ins))"
      by (simp add: image_iff) metis
    also have "((\<exists>i\<in>set ins. ?key i \<in> seen) \<or> ?key a \<in> set (map ?key ins)
                 \<or> \<not> distinct (map ?key ins))
               = ((\<exists>i\<in>set (a # ins). ?key i \<in> seen) \<or> \<not> distinct (map ?key (a # ins)))"
      using False by simp
    finally show ?thesis .
  qed
qed

lemma toKey_inj: "toKey p = toKey q \<Longrightarrow> p = q"
  by (cases p, cases q) (simp add: toKey_def)

lemma hasDuplicate_distinct:
  "hasDuplicate_loop {} ins \<longleftrightarrow> \<not> distinct (map prevout ins)"
proof -
  have inj: "inj_on toKey A" for A
    by (rule inj_onI) (rule toKey_inj)
  have "distinct (map (\<lambda>i. toKey (prevout i)) ins) = distinct (map prevout ins)"
    using distinct_map[of toKey "map prevout ins"] inj[of "set (map prevout ins)"]
    by (simp add: comp_def)
  then show ?thesis by (simp add: hasDuplicate_loop_iff)
qed

lemma hasNullPrevout_loop_iff:
  "hasNullPrevout_loop ins \<longleftrightarrow> (\<exists>i\<in>set ins. isNull (prevout i))"
  by (induction ins) auto

lemma checkSanity_cases:
  "\<exists>v. checkSanity t =
          Inr (v, if inputs t = [] \<or> outputs t = [] \<or> mutable t then t else t\<lparr>memo := True\<rparr>)
        \<and> (if saneSpec t then v = (True, ''valid'', 0)
           else fst v = False \<and> violates t (fst (snd v)) (snd (snd v)))"
proof (cases "inputs t = []")
  case True
  then show ?thesis by (simp add: checkSanity_def saneSpec_def violates_def)
next
  case ni: False
  show ?thesis
  proof (cases "outputs t = []")
    case True
    then show ?thesis using ni by (simp add: checkSanity_def saneSpec_def violates_def)
  next
    case no: False
    define t' where "t' = (if mutable t then t else t\<lparr>memo := True\<rparr>)"
    have gs: "getSize t = Inr (serializedSize t, t')"
      using getSize_ok[OF ni] by (simp add: t'_def)
    have f: "inputs t' = inputs t" "outputs t' = outputs t" "isCoinbase t' = isCoinbase t"
      by (simp_all add: t'_def isCoinbase_def)
    have st: "(if inputs t = [] \<or> outputs t = [] \<or> mutable t then t else t\<lparr>memo := True\<rparr>) = t'"
      using ni no by (simp add: t'_def)
    have hd0: "inputs t ! 0 = hd (inputs t)" using ni by (simp add: hd_conv_nth)
    have run: "(\<forall>k\<le>length (outputs t). 0 \<le> runningTotal t k \<and> runningTotal t k \<le> MAX_MONEY)
               \<longleftrightarrow> (\<forall>k. 1 \<le> k \<and> k \<le> length (outputs t) \<longrightarrow>
                      inRange (0 + sum_list (map outValue (take k (outputs t)))))"
      (is "?A \<longleftrightarrow> ?B")
    proof
      assume ?A then show ?B by (simp add: runningTotal_def inRange_def)
    next
      assume b: ?B
      show ?A
      proof (intro allI impI)
        fix k assume k: "k \<le> length (outputs t)"
        show "0 \<le> runningTotal t k \<and> runningTotal t k \<le> MAX_MONEY"
        proof (cases "k = 0")
          case True
          then show ?thesis by (simp add: runningTotal_def MAX_MONEY_def COIN_def)
        next
          case False
          then show ?thesis using b[rule_format, of k] k
            by (simp add: runningTotal_def inRange_def)
        qed
      qed
    qed
    show ?thesis
    proof (cases "MAX_TX_SIZE < serializedSize t")
      case True
      then show ?thesis
        unfolding st using ni no gs
        by (simp add: checkSanity_def saneSpec_def violates_def)
    next
      case sz: False
      show ?thesis
      proof (cases "checkOutputs_loop 0 (outputs t)")
        case (Some v)
        from checkOutputs_loop_Some[OF Some]
        have v: "fst v = False" "snd (snd v) = 100"
          "fst (snd v) = ''bad-txns-vout-negative'' \<and> (\<exists>out\<in>set (outputs t). outValue out < 0)
           \<or> fst (snd v) = ''bad-txns-vout-toolarge'' \<and> (\<exists>out\<in>set (outputs t). MAX_MONEY < outValue out)
           \<or> fst (snd v) = ''bad-txns-txouttotal-toolarge''
              \<and> (\<exists>k\<le>length (outputs t). \<not> inRange (0 + sum_list (map outValue (take k (outputs t)))))"
          by auto
        have viol: "violates t (fst (snd v)) (snd (snd v))"
          using v(2,3) unfolding violates_def runningTotal_def inRange_def
          by (elim disjE conjE) (simp_all, force)
        have ns: "\<not> saneSpec t"
          using viol ni no sz unfolding violates_def saneSpec_def
          by (auto simp: not_le)
        have "checkSanity t = Inr (v, t')"
          using ni no gs sz Some by (simp add: checkSanity_def f)
        then show ?thesis unfolding st using ns v(1) viol by simp
      next
        case None
        then have outs: "(\<forall>out\<in>set (outputs t). 0 \<le> outValue out \<and> outValue out \<le> MAX_MONEY)"
          and tots: "\<forall>k\<le>length (outputs t). 0 \<le> runningTotal t k \<and> runningTotal t k \<le> MAX_MONEY"
          using checkOutputs_loop_None[of 0 "outputs t"] run by (simp_all add: inRange_def)
        show ?thesis
        proof (cases "distinct (map prevout (inputs t))")
          case False
          then have "checkSanity t = Inr ((False, ''bad-txns-inputs-duplicate'', 100), t')"
            using ni no gs sz None by (simp add: checkSanity_def f hasDuplicate_distinct)
          then show ?thesis unfolding st using False
            by (simp add: saneSpec_def violates_def)
        next
          case d: True
          show ?thesis
          proof (cases "isCoinbase t")
            case True
            let ?n = "length (script (hd (inputs t)))"
            show ?thesis
            proof (cases "?n < 2 \<or> 100 < ?n")
              case bad: True
              then have "checkSanity t = Inr ((False, ''bad-cb-length'', 100), t')"
                using ni no gs sz None d True
                by (auto simp: checkSanity_def f hasDuplicate_distinct hd0 Let_def
                    MAX_COINBASE_SCRIPTSIG_SIZE_def)
              then show ?thesis unfolding st using bad True
                by (auto simp: saneSpec_def violates_def)
            next
              case good: False
              then have "checkSanity t = Inr ((True, ''valid'', 0), t')"
                using ni no gs sz None d True
                by (auto simp: checkSanity_def f hasDuplicate_distinct hd0 Let_def
                    MAX_COINBASE_SCRIPTSIG_SIZE_def)
              moreover have "saneSpec t"
                using ni no sz outs tots d True good by (simp add: saneSpec_def)
              ultimately show ?thesis unfolding st by simp
            qed
          next
            case ncb: False
            show ?thesis
            proof (cases "\<exists>i\<in>set (inputs t). isNull (prevout i)")
              case True
              then have "checkSanity t = Inr ((False, ''bad-txns-prevout-null'', 10), t')"
                using ni no gs sz None d ncb
                by (simp add: checkSanity_def f hasDuplicate_distinct hasNullPrevout_loop_iff)
              then show ?thesis unfolding st using True ncb
                by (auto simp: saneSpec_def violates_def)
            next
              case False
              then have "checkSanity t = Inr ((True, ''valid'', 0), t')"
                using ni no gs sz None d ncb
                by (simp add: checkSanity_def f hasDuplicate_distinct hasNullPrevout_loop_iff)
              moreover have "saneSpec t"
                using ni no sz outs tots d ncb False by (simp add: saneSpec_def)
              ultimately show ?thesis unfolding st by simp
            qed
          qed
        qed
      qed
    qed
  qed
qed


text \<open>
  Claim C5. \<open>checkSanity\<close> never throws and returns \<open>[true, 'valid', 0]\<close> exactly for
  the transactions that satisfy the conditions of the specification; every other
  transaction gets \<open>false\<close> with the reason tag and score of a condition it violates.
  The four wire fields of the transaction are the same afterwards (only the
  serialization memo may have been filled).
\<close>

theorem checkSanity_iff:
  "\<exists>v t'. checkSanity t = Inr (v, t')
     \<and> version t' = version t \<and> inputs t' = inputs t \<and> outputs t' = outputs t
     \<and> locktime t' = locktime t \<and> mutable t' = mutable t
     \<and> (v = (True, ''valid'', 0) \<longleftrightarrow> saneSpec t)
     \<and> (\<not> saneSpec t \<longrightarrow> fst v = False \<and> violates t (fst (snd v)) (snd (snd v)))"
proof -
  from checkSanity_cases[of t] obtain v where
    r: "checkSanity t =
          Inr (v, if inputs t = [] \<or> outputs t = [] \<or> mutable t then t else t\<lparr>memo := True\<rparr>)"
    and c: "if saneSpec t then v = (True, ''valid'', 0)
            else fst v = False \<and> violates t (fst (snd v)) (snd (snd v))"
    by blast
  have "(v = (True, ''valid'', 0)) = saneSpec t"
    using c by (cases "saneSpec t") auto
  then show ?thesis using r c by (cases "saneSpec t") auto
qed

theorem checkSanity_iff_witness:
  "saneSpec (sampleTx [spend opA] [pay 6000])
   \<and> (\<exists>t'. checkSanity (sampleTx [spend opA] [pay 6000]) = Inr ((True, ''valid'', 0), t'))
   \<and> \<not> saneSpec (sampleTx [] [pay 6000])
   \<and> (\<exists>v t'. checkSanity (sampleTx [] [pay 6000]) = Inr (v, t') \<and> fst v = False)"
proof -
  let ?t = "sampleTx [spend opA] [pay 6000]"
  let ?u = "sampleTx [] [pay 6000]"
  have k: "k \<le> Suc 0 \<longleftrightarrow> k = 0 \<or> k = Suc 0" for k by auto
  have s: "saneSpec ?t"
    by (simp add: saneSpec_def sampleTx_def spend_def pay_def serializedSize_eq input_getSize_def
        output_getSize_def sizeVarBytes_def sizeVarint_def MAX_TX_SIZE_def MAX_MONEY_def COIN_def
        runningTotal_def isCoinbase_def isNull_def opA_def k)
  have n: "\<not> saneSpec ?u"
    by (simp add: saneSpec_def sampleTx_def)
  from checkSanity_iff[of ?t] s
  have "\<exists>t'. checkSanity ?t = Inr ((True, ''valid'', 0), t')" by auto
  moreover from checkSanity_iff[of ?u] n
  have "\<exists>v t'. checkSanity ?u = Inr (v, t') \<and> fst v = False" by auto
  ultimately show ?thesis using s n by blast
qed

section \<open>Legacy signature hash: SINGLE out of range\<close>

text \<open>
  Claim C8. When the low five bits of the hash type are \<open>SINGLE\<close> and the input index
  has no output, the legacy signature hash is the 32 bytes \<open>01 00 ... 00\<close>, whatever
  the transaction, the previous script and the other bits of the type are.
\<close>

theorem signatureHashV0_single_out_of_range:
  assumes "ty AND 0x1f = SINGLE ht" and "length (outputs t) \<le> idx"
  shows "signatureHashV0 ht removeSeparators hash256 t idx prev ty = Inr (0x01 # replicate 31 0x00)"
proof -
  have "(replicate 32 (0x00::byte))[0 := 0x01] = 0x01 # replicate 31 0x00"
    by (simp add: numeral_eq_Suc)
  then show ?thesis using assms by (simp add: signatureHashV0_def)
qed

theorem signatureHashV0_single_out_of_range_witness:
  "(0x83::u32) AND 0x1f = SINGLE bitcoinHashType
   \<and> length (outputs (sampleTx [spend opA, spend opB] [pay 6000])) \<le> 1
   \<and> signatureHashV0 bitcoinHashType id id (sampleTx [spend opA, spend opB] [pay 6000]) 1 [] 0x83
       = Inr (0x01 # replicate 31 0x00)"
proof -
  have a: "(0x83::u32) AND 0x1f = SINGLE bitcoinHashType"
    by (simp add: bitcoinHashType_def)
  have b: "length (outputs (sampleTx [spend opA, spend opB] [pay 6000])) \<le> 1"
    by (simp add: sampleTx_def)
  show ?thesis
    using signatureHashV0_single_out_of_range[OF a b, of id id "[]"] a b by simp
qed

section \<open>Block body check: size bounds\<close>

lemma getSize_value: "getSize t = Inr (s, t') \<Longrightarrow> s = serializedSize t"
  by (auto simp: getSize_def frame_def frameNormal_def serializedSize_def
           split: if_splits sum.splits)

lemma sumSizes_value:
  "sumSizes sz ts = Inr r \<Longrightarrow> r = sz + sum_list (map serializedSize ts)"
proof (induction ts arbitrary: sz)
  case Nil
  then show ?case by simp
next
  case (Cons t rest)
  from Cons.prems obtain s t' where g: "getSize t = Inr (s, t')"
    and r: "sumSizes (sz + s) rest = Inr r"
    by (auto split: sum.splits)
  show ?case using Cons.IH[OF r] getSize_value[OF g] by simp
qed

lemma block_getSize_value: "block_getSize b = Inr sz \<Longrightarrow> sz = blockSize b"
  by (auto simp: block_getSize_def block_frame_def block_frameNormal_def block_getNormalSizes_def
        blockSize_def Let_def
      dest!: sumSizes_value split: if_splits sum.splits)

lemma blockSize_lower: "81 + 10 * int (length (txs b)) \<le> blockSize b"
proof -
  have "10 * int (length ts) \<le> sum_list (map serializedSize ts)" for ts
    by (induction ts) (use serializedSize_min in \<open>auto simp: add.commute add_mono\<close>)
  then have "10 * int (length (txs b)) \<le> sum_list (map serializedSize (txs b))" .
  then show ?thesis
    unfolding blockSize_def using sizeVarint_pos[of "length (txs b)"] by linarith
qed

lemma checkBody_valid_size:
  assumes "checkBody hash256 createRoot getSigops b = Inr (True, ''valid'', 0)"
  shows "block_getSize b = Inr (blockSize b) \<and> blockSize b \<le> MAX_FORK_BLOCK_SIZE"
proof (cases "block_getSize b")
  case (Inl e)
  then show ?thesis using assms by (simp add: checkBody_def split: if_splits)
next
  case (Inr sz)
  then have "sz = blockSize b" by (rule block_getSize_value)
  moreover have "sz \<le> MAX_FORK_BLOCK_SIZE"
    using assms Inr by (simp add: checkBody_def split: if_splits)
  ultimately show ?thesis using Inr by simp
qed


text \<open>
  Claim C6. A block that \<open>checkBody\<close> accepts has a serialized size of at most
  \<open>MAX_FORK_BLOCK_SIZE\<close>, and a tenth of that size bounds the number of its
  transactions (a transaction takes at least 10 bytes).
\<close>

theorem checkBody_size_bounds:
  assumes "checkBody hash256 createRoot getSigops b = Inr (True, ''valid'', 0)"
  shows "\<exists>sz. block_getSize b = Inr sz \<and> sz \<le> MAX_FORK_BLOCK_SIZE
              \<and> int (length (txs b)) \<le> sz div 10"
proof -
  from checkBody_valid_size[OF assms]
  have g: "block_getSize b = Inr (blockSize b)" and m: "blockSize b \<le> MAX_FORK_BLOCK_SIZE"
    by simp_all
  have "10 * int (length (txs b)) \<le> blockSize b"
    using blockSize_lower[of b] by simp
  then have "int (length (txs b)) \<le> blockSize b div 10"
    by (simp add: zdiv_mono1 [of "10 * int (length (txs b))" "blockSize b" 10, simplified])
  then show ?thesis using g m by blast
qed

theorem checkBody_size_bounds_witness:
  "checkBody id sampleRoot noSigops sampleBlock = Inr (True, ''valid'', 0)
   \<and> (\<exists>sz. block_getSize sampleBlock = Inr sz \<and> sz \<le> MAX_FORK_BLOCK_SIZE
            \<and> int (length (txs sampleBlock)) \<le> sz div 10)"
proof -
  have sz: "serializedSize coinbaseTx = 62"
    by (simp add: serializedSize_eq coinbaseTx_def sampleTx_def pay_def input_getSize_def
        output_getSize_def sizeVarBytes_def sizeVarint_def)
  have gs: "getSize coinbaseTx = Inr (62, coinbaseTx\<lparr>memo := True\<rparr>)"
    using getSize_ok[of coinbaseTx] sz by (simp add: coinbaseTx_def sampleTx_def)
  have bs: "block_getSize sampleBlock = Inr 143"
    by (simp add: block_getSize_def block_frame_def block_frameNormal_def
        block_getNormalSizes_def block_writeNormal_def tx_toWriter_def frame_def frameNormal_def
        writeNormal_def sampleBlock_def gs sizeVarint_def)
       (simp add: coinbaseTx_def sampleTx_def)
  have cb: "isCoinbase coinbaseTx"
    by (simp add: isCoinbase_def coinbaseTx_def sampleTx_def isNull_def)
  have mr: "createMerkleRoot id sampleRoot sampleBlock = Inr (Some [])"
    by (simp add: createMerkleRoot_def sampleBlock_def tx_hash_def frame_def frameNormal_def
        writeNormal_def sampleRoot_def)
       (simp add: coinbaseTx_def sampleTx_def)
  have k: "k \<le> Suc 0 \<longleftrightarrow> k = 0 \<or> k = Suc 0" for k by auto
  have "saneSpec coinbaseTx"
    using sz cb
    by (simp add: saneSpec_def MAX_TX_SIZE_def)
       (simp add: coinbaseTx_def sampleTx_def pay_def MAX_MONEY_def COIN_def runningTotal_def k)
  then obtain t' where cs: "checkSanity coinbaseTx = Inr ((True, ''valid'', 0), t')"
    using checkSanity_cases[of coinbaseTx] by auto
  have sg: "getLegacySigops noSigops coinbaseTx = 0"
    by (simp add: getLegacySigops_def noSigops_def coinbaseTx_def sampleTx_def)
  have v: "checkBody id sampleRoot noSigops sampleBlock = Inr (True, ''valid'', 0)"
    using cb
    by (simp add: checkBody_def bs mr MAX_FORK_BLOCK_SIZE_def)
       (simp add: sampleBlock_def cs sg maxBlockSigops_def MAX_BLOCK_SIGOPS_PER_MB_def
          toInt32_def)
  show ?thesis using checkBody_size_bounds[OF v] v by simp
qed

section \<open>Address parsing: dispatch on the case of the string\<close>

lemma bit5_iff: "(ch AND 32 \<noteq> 0) = odd (ch div 32)" for ch :: nat
proof -
  have "(ch AND 2 ^ 5 = 0) = (\<not> bit ch 5)"
    by (rule and_exp_eq_0_iff_not_bit)
  then show ?thesis by (simp add: bit_iff_odd)
qed

lemma upper_bit5: "isUpper ch \<Longrightarrow> \<not> (ch AND 32 \<noteq> 0)"
proof -
  assume "isUpper ch"
  then have "ch div 32 = 2" by (simp add: isUpper_def) arith
  then have "even (ch div 32)" by simp
  then show ?thesis using bit5_iff[of ch] by blast
qed

lemma lower_bit5: "isLower ch \<Longrightarrow> ch AND 32 \<noteq> 0"
proof -
  assume "isLower ch"
  then have "ch div 32 = 3" by (simp add: isLower_def) arith
  then have "odd (ch div 32)" by simp
  then show ?thesis using bit5_iff[of ch] by blast
qed

lemma loop_step_allowed:
  assumes "allowedChar ch"
  shows "isMixedCase_loop lower upper (ch # rest) =
           (if (lower \<or> isLower ch) \<and> (upper \<or> isUpper ch) \<and> (isLower ch \<or> isUpper ch)
            then Inr True
            else isMixedCase_loop (lower \<or> isLower ch) (upper \<or> isUpper ch) rest)"
proof -
  consider "isDigit ch" | "ch = 0x3a" | "isUpper ch" | "isLower ch"
    using assms by (auto simp: allowedChar_def)
  then show ?thesis
  proof cases
    case 1
    then show ?thesis by (auto simp: isDigit_def isUpper_def isLower_def)
  next
    case 2
    then show ?thesis by (auto simp: isDigit_def isUpper_def isLower_def)
  next
    case 3
    then have "\<not> isDigit ch" "ch \<noteq> 0x3a" "\<not> isLower ch"
      by (auto simp: isDigit_def isUpper_def isLower_def)
    then show ?thesis using 3 upper_bit5[OF 3]
      by (simp add: isDigit_def) (simp add: isUpper_def)
  next
    case 4
    then have "\<not> isDigit ch" "ch \<noteq> 0x3a" "\<not> isUpper ch"
      by (auto simp: isDigit_def isUpper_def isLower_def)
    then show ?thesis using 4 lower_bit5[OF 4]
      by (simp add: isDigit_def) (simp add: isLower_def)
  qed
qed

lemma loop_step_bad:
  assumes "\<not> allowedChar ch"
  shows "isMixedCase_loop lower upper (ch # rest) = Inl AssertionError"
  using assms by (auto simp: allowedChar_def isDigit_def isUpper_def isLower_def)

lemma loop_prefix_mixed:
  assumes "\<forall>ch\<in>set pre. allowedChar ch" and "\<not> (lower \<and> upper)"
  shows "isMixedCase_loop lower upper (pre @ rest) =
           (if (lower \<or> hasLower pre) \<and> (upper \<or> hasUpper pre) then Inr True
            else isMixedCase_loop (lower \<or> hasLower pre) (upper \<or> hasUpper pre) rest)"
  using assms
proof (induction pre arbitrary: lower upper)
  case Nil
  then show ?case by (auto simp: hasLower_def hasUpper_def)
next
  case (Cons ch pre)
  have a: "allowedChar ch" and p: "\<forall>c\<in>set pre. allowedChar c" using Cons.prems(1) by simp_all
  have hl: "hasLower (ch # pre) = (isLower ch \<or> hasLower pre)"
    and hu: "hasUpper (ch # pre) = (isUpper ch \<or> hasUpper pre)"
    by (simp_all add: hasLower_def hasUpper_def)
  show ?case
  proof (cases "(lower \<or> isLower ch) \<and> (upper \<or> isUpper ch)")
    case True
    then have "isLower ch \<or> isUpper ch" using Cons.prems(2) by auto
    then show ?thesis using True loop_step_allowed[OF a] by (auto simp: hl hu)
  next
    case False
    have "isMixedCase_loop lower upper ((ch # pre) @ rest) =
          isMixedCase_loop (lower \<or> isLower ch) (upper \<or> isUpper ch) (pre @ rest)"
      using False loop_step_allowed[OF a] by auto
    also have "\<dots> =
          (if ((lower \<or> isLower ch) \<or> hasLower pre) \<and> ((upper \<or> isUpper ch) \<or> hasUpper pre)
           then Inr True
           else isMixedCase_loop ((lower \<or> isLower ch) \<or> hasLower pre)
                  ((upper \<or> isUpper ch) \<or> hasUpper pre) rest)"
      using p False by (intro Cons.IH) simp_all
    finally show ?thesis by (simp add: hl hu disj_assoc)
  qed
qed


lemma isMixedCase_bad:
  assumes "\<forall>ch\<in>set pre. allowedChar ch" and "\<not> mixedCase pre" and "\<not> allowedChar c"
  shows "isMixedCase (pre @ c # post) = Inl AssertionError"
  using loop_prefix_mixed[OF assms(1), of False False "c # post"] assms(2)
    loop_step_bad[OF assms(3)]
  by (auto simp: isMixedCase_def mixedCase_def)

lemma isMixedCase_early:
  assumes "\<forall>ch\<in>set pre. allowedChar ch" and "mixedCase pre"
  shows "isMixedCase (pre @ post) = Inr True"
  using loop_prefix_mixed[OF assms(1), of False False post] assms(2)
  by (auto simp: isMixedCase_def mixedCase_def)





text \<open>
  Claim C10 (as amended). In a string of at most 100 characters, let \<open>c\<close> be the first
  character that is no ASCII digit, ASCII letter or colon. If the characters before
  \<open>c\<close> are not mixed case, the scan reaches \<open>c\<close> and its assertion fails before any
  decoder is called; if they are mixed case, the scan has returned before \<open>c\<close> and
  the string goes to the Base58 decoder.
\<close>

theorem fromString_assertion:
  assumes "length (pre @ c # post) \<le> 100"
      and "\<forall>ch\<in>set pre. allowedChar ch" and "\<not> allowedChar c"
  shows "(\<not> mixedCase pre \<longrightarrow>
            fromString decode58 decodeCash (pre @ c # post) = ([], Inl AssertionError))
       \<and> (mixedCase pre \<longrightarrow>
            fromString decode58 decodeCash (pre @ c # post)
              = ([Base58], fromBase58 decode58 (pre @ c # post)))"
proof (cases "mixedCase pre")
  case True
  then have "isMixedCase (pre @ c # post) = Inr True"
    using assms(2) by (intro isMixedCase_early)
  then show ?thesis using True assms(1) by (simp add: fromString_def)
next
  case False
  then have "isMixedCase (pre @ c # post) = Inl AssertionError"
    using assms(2,3) by (intro isMixedCase_bad)
  then show ?thesis using False assms(1) by (simp add: fromString_def)
qed

theorem fromString_assertion_witness:
  "fromString rejectAll rejectAll (codeUnits ''bitcoincash-qr35'') = ([], Inl AssertionError)"
proof -
  have s: "codeUnits ''bitcoincash-qr35'' = codeUnits ''bitcoincash'' @ 0x2d # codeUnits ''qr35''"
    by (simp add: codeUnits_def)
  have l: "length (codeUnits ''bitcoincash'' @ 0x2d # codeUnits ''qr35'') \<le> 100"
    by (simp add: codeUnits_def)
  have a: "\<forall>ch\<in>set (codeUnits ''bitcoincash''). allowedChar ch"
    by (simp add: codeUnits_def allowedChar_def isDigit_def isUpper_def isLower_def)
  have b: "\<not> allowedChar 0x2d"
    by (simp add: allowedChar_def isDigit_def isUpper_def isLower_def)
  have m: "\<not> mixedCase (codeUnits ''bitcoincash'')"
    by (simp add: codeUnits_def mixedCase_def hasUpper_def hasLower_def isUpper_def isLower_def)
  show ?thesis
    unfolding s using fromString_assertion[OF l a b, of rejectAll rejectAll] m by blast
qed

text \<open>
  The string \<open>aB-\<close> holds the character \<open>-\<close>, but the scan returns at \<open>B\<close>: the
  string reaches the Base58 decoder and the result is a parse error.
\<close>

theorem fromString_assertion_counterexample:
  "\<not> allowedChar 0x2d
   \<and> codeUnits ''aB-'' = [0x61, 0x42, 0x2d]
   \<and> fromString rejectAll rejectAll (codeUnits ''aB-'') = ([Base58], Inl ParseError)"
  by (simp add: codeUnits_def allowedChar_def isDigit_def isUpper_def isLower_def
      fromString_def isMixedCase_def fromBase58_def rejectAll_def)

section \<open>Block assembly: the fee-rate phase\<close>

lemma cmpRate_le:
  "cmpRate a b \<le> 0 \<longleftrightarrow>
     effectiveRate b < effectiveRate a
     \<or> (effectiveRate b = effectiveRate a \<and> priority b \<le> priority a)"
  by (auto simp: cmpRate_def effectiveRate_def Let_def max_def)

lemma releaseDeps_store:
  "fst (releaseDeps st q deps) d =
     (st d)\<lparr>depCount := depCount (st d) - int (count_list deps d)\<rparr>"
proof (induction deps arbitrary: st q)
  case Nil
  show ?case by simp
next
  case (Cons x deps)
  let ?st = "st(x := (st x)\<lparr>depCount := depCount (st x) - 1\<rparr>)"
  have "fst (releaseDeps st q (x # deps)) d = fst (releaseDeps ?st q' deps) d"
    if "q' = (if depCount (st x) - 1 = 0 then q @ [x] else q)" for q'
    using that by (simp add: Let_def)
  then have "fst (releaseDeps st q (x # deps)) d =
             (?st d)\<lparr>depCount := depCount (?st d) - int (count_list deps d)\<rparr>"
    using Cons.IH by simp
  then show ?case by (cases "d = x") simp_all
qed

lemma count_list_le_pos: "0 \<le> int (count_list xs x)"
  by simp

lemma releaseDeps_queue:
  "count_list (snd (releaseDeps st q deps)) d =
     count_list q d
     + (if 1 \<le> depCount (st d) \<and> depCount (st d) \<le> int (count_list deps d) then 1 else 0)"
proof (induction deps arbitrary: st q)
  case Nil
  show ?case by simp
next
  case (Cons x deps)
  let ?c = "depCount (st x)"
  let ?st = "st(x := (st x)\<lparr>depCount := ?c - 1\<rparr>)"
  let ?q = "if ?c - 1 = 0 then q @ [x] else q"
  have step: "snd (releaseDeps st q (x # deps)) = snd (releaseDeps ?st ?q deps)"
    by (simp add: Let_def)
  have ih: "count_list (snd (releaseDeps ?st ?q deps)) d =
     count_list ?q d
     + (if 1 \<le> depCount (?st d) \<and> depCount (?st d) \<le> int (count_list deps d) then 1 else 0)"
    by (rule Cons.IH)
  show ?case
  proof (cases "d = x")
    case False
    then show ?thesis using ih step by simp
  next
    case True
    show ?thesis
    proof (cases "?c = 1")
      case c1: True
      then show ?thesis using ih step True by simp
    next
      case False
      then show ?thesis using ih step True by auto
    qed
  qed
qed


lemma assemble_feeRate_body:
  assumes np: "\<not> priorityPhase s"
      and gs: "getSize (entryTx (store s a)) = Inr (tsz, t')"
  shows "if isFinal (entryTx (store s a)) (tplHeight (attempt s)) (tplLocktime (attempt s))
            \<and> fits options (attempt s) (store s a) tsz
            \<and> \<not> (free (store s a) \<and> minSize options \<le> tplSize (attempt s) + tsz)
         then \<exists>s'. assembleBody options depMap s a = Inr s'
            \<and> attempt s' = (attempt s)\<lparr>tplSize := tplSize (attempt s) + tsz,
                  tplSigops := tplSigops (attempt s) + entrySigops (store s a),
                  tplFees := tplFees (attempt s) + entryFee (store s a),
                  tplItems := tplItems (attempt s) @ [a]\<rparr>
            \<and> (\<forall>d. store s' d = (store s d)\<lparr>depCount :=
                    depCount (store s d) - int (count_list (dependents depMap (store s a)) d)\<rparr>)
            \<and> (\<forall>d. count_list (queue s') d = count_list (queue s) d
                    + (if 1 \<le> depCount (store s d)
                          \<and> depCount (store s d) \<le> int (count_list (dependents depMap (store s a)) d)
                       then 1 else 0))
         else assembleBody options depMap s a = Inr s"
proof (cases "isFinal (entryTx (store s a)) (tplHeight (attempt s)) (tplLocktime (attempt s))
            \<and> fits options (attempt s) (store s a) tsz
            \<and> \<not> (free (store s a) \<and> minSize options \<le> tplSize (attempt s) + tsz)")
  case False
  then show ?thesis using np gs
    by (auto simp: assembleBody_def Let_def fits_def)
next
  case True
  let ?att = "(attempt s)\<lparr>tplSize := tplSize (attempt s) + tsz,
                  tplSigops := tplSigops (attempt s) + entrySigops (store s a),
                  tplFees := tplFees (attempt s) + entryFee (store s a),
                  tplItems := tplItems (attempt s) @ [a]\<rparr>"
  show ?thesis
  proof (cases "depMap (entryHash (store s a))")
    case None
    then have "assembleBody options depMap s a = Inr (s\<lparr>attempt := ?att\<rparr>)"
      using True np gs by (auto simp: assembleBody_def Let_def fits_def)
    moreover have "dependents depMap (store s a) = []"
      using None by (simp add: dependents_def)
    ultimately show ?thesis using True by simp
  next
    case (Some deps)
    define st where "st = fst (releaseDeps (store s) (queue s) deps)"
    define q where "q = snd (releaseDeps (store s) (queue s) deps)"
    have rd: "releaseDeps (store s) (queue s) deps = (st, q)" by (simp add: st_def q_def)
    have "assembleBody options depMap s a = Inr (s\<lparr>store := st, queue := q, attempt := ?att\<rparr>)"
      using True np gs Some rd by (auto simp: assembleBody_def Let_def fits_def)
    moreover have "dependents depMap (store s a) = deps"
      using Some by (simp add: dependents_def)
    moreover have "st d = (store s d)\<lparr>depCount := depCount (store s d) - int (count_list deps d)\<rparr>" for d
      unfolding st_def by (rule releaseDeps_store)
    moreover have "count_list q d = count_list (queue s) d
                    + (if 1 \<le> depCount (store s d) \<and> depCount (store s d) \<le> int (count_list deps d)
                       then 1 else 0)" for d
      unfolding q_def by (rule releaseDeps_queue)
    ultimately show ?thesis using True by simp
  qed
qed


text \<open>
  Claim C7 (as amended). In the fee-rate phase the entry that the heap returns has the
  greatest \<open>max(rate, descRate)\<close> of the heap, and among equal ones the greatest
  priority. It is committed (size, sigops and fees of the template updated, the entry
  appended, the parent count of each dependent decremented once per listing, and the
  dependents whose count reaches zero inserted into the heap) when it is final, fits
  into \<open>maxSize\<close> and \<open>maxSigops\<close> and is not a free entry at or beyond \<open>minSize\<close>;
  otherwise it is dropped and nothing but the heap changes.
\<close>

theorem assemble_feeRate_step:
  assumes "\<not> priorityPhase s"
      and "assembleStep options depMap s a = Some r"
      and "getSize (entryTx (store s a)) = Inr (tsz, t')"
  shows "(\<forall>b\<in>set (queue s).
            effectiveRate (store s b) < effectiveRate (store s a)
            \<or> (effectiveRate (store s b) = effectiveRate (store s a)
               \<and> priority (store s b) \<le> priority (store s a)))
       \<and> (if isFinal (entryTx (store s a)) (tplHeight (attempt s)) (tplLocktime (attempt s))
              \<and> fits options (attempt s) (store s a) tsz
              \<and> \<not> (free (store s a) \<and> minSize options \<le> tplSize (attempt s) + tsz)
           then \<exists>s'. r = Inr s'
              \<and> attempt s' = (attempt s)\<lparr>tplSize := tplSize (attempt s) + tsz,
                    tplSigops := tplSigops (attempt s) + entrySigops (store s a),
                    tplFees := tplFees (attempt s) + entryFee (store s a),
                    tplItems := tplItems (attempt s) @ [a]\<rparr>
              \<and> (\<forall>d. store s' d = (store s d)\<lparr>depCount :=
                      depCount (store s d) - int (count_list (dependents depMap (store s a)) d)\<rparr>)
              \<and> (\<forall>d. count_list (queue s') d = count_list (remove1 a (queue s)) d
                      + (if 1 \<le> depCount (store s d)
                            \<and> depCount (store s d)
                                \<le> int (count_list (dependents depMap (store s a)) d)
                         then 1 else 0))
           else r = Inr (s\<lparr>queue := remove1 a (queue s)\<rparr>))"
proof -
  let ?s = "s\<lparr>queue := remove1 a (queue s)\<rparr>"
  have top: "isTop cmpRate (store s) (queue s) a" and r: "r = assembleBody options depMap ?s a"
    using assms(1,2) by (auto simp: assembleStep_def queueCmp_def split: if_splits)
  have order: "\<forall>b\<in>set (queue s).
            effectiveRate (store s b) < effectiveRate (store s a)
            \<or> (effectiveRate (store s b) = effectiveRate (store s a)
               \<and> priority (store s b) \<le> priority (store s a))"
    using top by (simp add: isTop_def cmpRate_le)
  have np: "\<not> priorityPhase ?s" using assms(1) by simp
  have gs: "getSize (entryTx (store ?s a)) = Inr (tsz, t')" using assms(3) by simp
  show ?thesis
  proof (cases "isFinal (entryTx (store s a)) (tplHeight (attempt s)) (tplLocktime (attempt s))
              \<and> fits options (attempt s) (store s a) tsz
              \<and> \<not> (free (store s a) \<and> minSize options \<le> tplSize (attempt s) + tsz)")
    case True
    then show ?thesis
      using order assemble_feeRate_body[OF np gs, of options depMap] unfolding r
      by (simp only: if_True assembleState.simps) simp
  next
    case False
    then show ?thesis
      using order assemble_feeRate_body[OF np gs, of options depMap] unfolding r
      by (simp only: if_False assembleState.simps) simp
  qed
qed

theorem assemble_feeRate_step_witness:
  "\<exists>s'. assembleStep sampleOptions sampleDepMap sampleState 0 = Some (Inr s')
      \<and> tplSize (attempt s') = 1060 \<and> tplSigops (attempt s') = 401
      \<and> tplFees (attempt s') = 500 \<and> tplItems (attempt s') = [0]
      \<and> depCount (store s' 1) = 0 \<and> count_list (queue s') 1 = 1"
proof -
  let ?r = "assembleBody sampleOptions sampleDepMap (sampleState\<lparr>queue := remove1 0 (queue sampleState)\<rparr>) 0"
  have p: "\<not> priorityPhase sampleState" by (simp add: sampleState_def)
  have st: "assembleStep sampleOptions sampleDepMap sampleState 0 = Some ?r"
    by (simp add: assembleStep_def isTop_def queueCmp_def sampleState_def cmpRate_def)
  have sz: "serializedSize (sampleTx [spend opA] [pay 6000]) = 60"
    by (simp add: serializedSize_eq sampleTx_def spend_def pay_def input_getSize_def
        output_getSize_def sizeVarBytes_def sizeVarint_def)
  have gs: "getSize (entryTx (store sampleState 0))
              = Inr (60, (sampleTx [spend opA] [pay 6000])\<lparr>memo := True\<rparr>)"
    using getSize_ok[of "sampleTx [spend opA] [pay 6000]"] sz
    by (simp add: sampleState_def parentEntry_def) (simp add: sampleTx_def)
  have fin: "isFinal (entryTx (store sampleState 0)) (tplHeight (attempt sampleState))
               (tplLocktime (attempt sampleState))"
    by (simp add: isFinal_def sampleState_def parentEntry_def sampleTx_def)
  have ft: "fits sampleOptions (attempt sampleState) (store sampleState 0) 60"
    by (simp add: fits_def sampleOptions_def sampleState_def sampleTemplate_def parentEntry_def)
  have nf: "\<not> free (store sampleState 0)"
    by (simp add: sampleState_def parentEntry_def)
  have dp: "dependents sampleDepMap (store sampleState 0) = [1]"
    by (simp add: dependents_def sampleDepMap_def sampleState_def parentEntry_def)
  from assemble_feeRate_step[OF p st gs] fin ft nf
  obtain s' where s': "?r = Inr s'"
    "attempt s' = (attempt sampleState)\<lparr>tplSize := tplSize (attempt sampleState) + 60,
        tplSigops := tplSigops (attempt sampleState) + entrySigops (store sampleState 0),
        tplFees := tplFees (attempt sampleState) + entryFee (store sampleState 0),
        tplItems := tplItems (attempt sampleState) @ [0]\<rparr>"
    "\<forall>d. store s' d = (store sampleState d)\<lparr>depCount := depCount (store sampleState d)
          - int (count_list (dependents sampleDepMap (store sampleState 0)) d)\<rparr>"
    "\<forall>d. count_list (queue s') d = count_list (remove1 0 (queue sampleState)) d
          + (if 1 \<le> depCount (store sampleState d)
                \<and> depCount (store sampleState d)
                    \<le> int (count_list (dependents sampleDepMap (store sampleState 0)) d)
             then 1 else 0)"
    by auto
  have "tplSize (attempt s') = 1060" "tplSigops (attempt s') = 401"
       "tplFees (attempt s') = 500" "tplItems (attempt s') = [0]"
    using s'(2) by (simp_all add: sampleState_def sampleTemplate_def parentEntry_def)
  moreover have "depCount (store s' 1) = 0"
    using s'(3)[rule_format, of 1] by (simp add: dp) (simp add: sampleState_def childEntry_def)
  moreover have "count_list (queue s') 1 = 1"
    using s'(4)[rule_format, of 1] by (simp add: dp) (simp add: sampleState_def childEntry_def)
  ultimately show ?thesis using st s'(1) by simp
qed

text \<open>
  A free entry is popped when the template already has \<open>minSize\<close> bytes: it is final
  and fits, but it is not committed.
\<close>

theorem assemble_feeRate_counterexample:
  "isFinal (entryTx freeEntry) (tplHeight sampleTemplate) (tplLocktime sampleTemplate)
   \<and> getSize (entryTx freeEntry) = Inr (60, (entryTx freeEntry)\<lparr>memo := True\<rparr>)
   \<and> fits sampleOptions sampleTemplate freeEntry 60
   \<and> assembleStep sampleOptions sampleDepMap freeState 0
       = Some (Inr (freeState\<lparr>queue := []\<rparr>))"
proof -
  have sz: "serializedSize (sampleTx [spend opA] [pay 6000]) = 60"
    by (simp add: serializedSize_eq sampleTx_def spend_def pay_def input_getSize_def
        output_getSize_def sizeVarBytes_def sizeVarint_def)
  have gs: "getSize (entryTx freeEntry) = Inr (60, (entryTx freeEntry)\<lparr>memo := True\<rparr>)"
    using getSize_ok[of "sampleTx [spend opA] [pay 6000]"] sz
    by (simp add: freeEntry_def) (simp add: sampleTx_def)
  have fin: "isFinal (entryTx freeEntry) (tplHeight sampleTemplate) (tplLocktime sampleTemplate)"
    by (simp add: isFinal_def freeEntry_def sampleTx_def)
  have ft: "fits sampleOptions sampleTemplate freeEntry 60"
    by (simp add: fits_def sampleOptions_def sampleTemplate_def freeEntry_def)
  have "assembleStep sampleOptions sampleDepMap freeState 0
          = Some (Inr (freeState\<lparr>queue := []\<rparr>))"
    using gs fin
    by (simp add: assembleStep_def isTop_def queueCmp_def freeState_def cmpRate_def
        assembleBody_def Let_def)
       (simp add: sampleOptions_def sampleTemplate_def freeEntry_def)
  then show ?thesis using gs fin ft by simp
qed

end
